theory Spec2Isabelle
  imports Main "HOL-Library.Word" "HOL-Library.Sublist" "HOL-Library.Multiset"
begin

unbundle bit_operations_syntax

section \<open>Shared Go data\<close>

text \<open>
  A Go \<^verbatim>\<open>byte\<close> is an 8-bit word, a \<^verbatim>\<open>[]byte\<close> a list of them. A Go \<^verbatim>\<open>string\<close> is a
  sequence of bytes and is modelled as a \<^typ>\<open>string\<close> (a list of 8-bit characters); a Go
  \<^verbatim>\<open>int\<close> is an \<^typ>\<open>int\<close> (no arithmetic of the modelled code comes near 64 bits).
  A run-time panic (an index out of range) is the left summand of a result.
\<close>

type_synonym byte = "8 word"

datatype panic = IndexOutOfRange

section \<open>Go strings\<close>

subsection \<open>Ranging over a string\<close>

text \<open>
  \<^verbatim>\<open>for _, r := range s\<close> decodes UTF-8: a byte below \<open>0x80\<close> is a rune by itself, anything
  else goes through the run time's \<^verbatim>\<open>decoderune\<close>, which returns the rune and the number of
  bytes it took, and \<open>U+FFFD\<close> with one byte for every sequence that is not valid.
\<close>

definition runeError :: int where
  "runeError = 0xFFFD"

definition contb :: "char \<Rightarrow> bool" where
  "contb c = (0x80 \<le> (of_char c :: int) \<and> (of_char c :: int) \<le> 0xBF)"

definition decoderune :: "string \<Rightarrow> int \<times> nat" where
  "decoderune s =
     (case s of
        [] \<Rightarrow> (runeError, 1)
      | c0 # s1 \<Rightarrow>
          let b0 = of_char c0 :: int
          in if 0xC0 \<le> b0 \<and> b0 < 0xE0 then
               (case s1 of
                  c1 # _ \<Rightarrow>
                    if contb c1 then
                      (let r = push_bit 6 (b0 AND 0x1F) OR (of_char c1 AND 0x3F)
                       in if 0x7F < r then (r, 2) else (runeError, 1))
                    else (runeError, 1)
                | _ \<Rightarrow> (runeError, 1))
             else if 0xE0 \<le> b0 \<and> b0 < 0xF0 then
               (case s1 of
                  c1 # c2 # _ \<Rightarrow>
                    if contb c1 \<and> contb c2 then
                      (let r = push_bit 12 (b0 AND 0x0F) OR push_bit 6 (of_char c1 AND 0x3F)
                                 OR (of_char c2 AND 0x3F)
                       in if 0x7FF < r \<and> \<not> (0xD800 \<le> r \<and> r \<le> 0xDFFF) then (r, 3)
                          else (runeError, 1))
                    else (runeError, 1)
                | _ \<Rightarrow> (runeError, 1))
             else if 0xF0 \<le> b0 \<and> b0 < 0xF8 then
               (case s1 of
                  c1 # c2 # c3 # _ \<Rightarrow>
                    if contb c1 \<and> contb c2 \<and> contb c3 then
                      (let r = push_bit 18 (b0 AND 0x07) OR push_bit 12 (of_char c1 AND 0x3F)
                                 OR push_bit 6 (of_char c2 AND 0x3F) OR (of_char c3 AND 0x3F)
                       in if 0xFFFF < r \<and> r \<le> 0x10FFFF then (r, 4) else (runeError, 1))
                    else (runeError, 1)
                | _ \<Rightarrow> (runeError, 1))
             else (runeError, 1))"

text \<open>
  The runes a \<^verbatim>\<open>range\<close> loop sees, in order. The rune at \<open>c # s\<close> takes \<open>w\<close> bytes, of which
  \<open>c\<close> is the first, so the loop goes on after \<open>w - 1\<close> bytes of \<open>s\<close>.
\<close>

function runes :: "string \<Rightarrow> int list" where
  "runes [] = []"
| "runes (c # s) =
     (if (of_char c :: int) < 0x80 then of_char c # runes s
      else (case decoderune (c # s) of (r, w) \<Rightarrow> r # runes (drop (w - 1) s)))"
  by pat_completeness auto
termination
  by (relation "measure length") auto

subsection \<open>Package strings\<close>

text \<open>\<^verbatim>\<open>strings.Contains(s, substr)\<close>: some suffix of \<open>s\<close> starts with \<open>substr\<close>.\<close>

primrec Contains :: "string \<Rightarrow> string \<Rightarrow> bool" where
  "Contains [] substr = (substr = [])"
| "Contains (c # s) substr = (prefix substr (c # s) \<or> Contains s substr)"

text \<open>
  \<^verbatim>\<open>strings.ToLower\<close>. Go lowers an all-ASCII string byte by byte and any other string
  with \<^verbatim>\<open>strings.Map(unicode.ToLower, s)\<close>, rune by rune; \<^verbatim>\<open>unicode.ToLower\<close> on an ASCII
  rune is the same byte-wise lowering, so both paths are one map over the runes. The
  Unicode case tables are not part of this repository: \<open>ul r\<close> stands for the UTF-8 bytes
  that \<^verbatim>\<open>Map\<close> writes for a rune \<open>r\<close> at or above \<open>0x80\<close>, and is a parameter.
\<close>

definition lower_rune :: "(int \<Rightarrow> string) \<Rightarrow> int \<Rightarrow> string" where
  "lower_rune ul r =
     (if r < 0x80 then [char_of (if 0x41 \<le> r \<and> r \<le> 0x5A then r + 0x20 else r)]
      else ul r)"

definition ToLower :: "(int \<Rightarrow> string) \<Rightarrow> string \<Rightarrow> string" where
  "ToLower ul s = concat (map (lower_rune ul) (runes s))"

text \<open>\<^verbatim>\<open>strings.Join(parts, sep)\<close>.\<close>

fun Join :: "string list \<Rightarrow> string \<Rightarrow> string" where
  "Join [] sep = ''''"
| "Join [p] sep = p"
| "Join (p # q # ps) sep = p @ sep @ Join (q # ps) sep"

text \<open>
  \<^verbatim>\<open>strings.IndexAny(s, chars)\<close> for ASCII \<open>chars\<close>: the index of the first byte of \<open>s\<close>
  that is one of them, or \<open>-1\<close>.
\<close>

fun IndexAny :: "string \<Rightarrow> string \<Rightarrow> int" where
  "IndexAny [] chars = -1"
| "IndexAny (c # s) chars =
     (if c \<in> set chars then 0
      else (let i = IndexAny s chars in if i < 0 then -1 else i + 1))"

text \<open>
  \<^verbatim>\<open>strings.TrimSpace\<close> on a string of ASCII bytes, where the white space is tab, line
  feed, vertical tab, form feed, carriage return and the space. (On other strings Go
  trims Unicode white space as well; every string trimmed here is printable ASCII.)
\<close>

definition asciiSpace :: "char \<Rightarrow> bool" where
  "asciiSpace c = (c \<in> set [CHR 0x09, CHR 0x0A, CHR 0x0B, CHR 0x0C, CHR 0x0D, CHR '' ''])"

definition TrimSpace :: "string \<Rightarrow> string" where
  "TrimSpace s = rev (dropWhile asciiSpace (rev (dropWhile asciiSpace s)))"

section \<open>Wake-on-LAN (package probe)\<close>

subsection \<open>SendWoL\<close>

datatype wol_error =
    InvalidMAC string      \<comment> \<open>\<^verbatim>\<open>invalid MAC address %q\<close>\<close>
  | MACLength nat          \<comment> \<open>\<^verbatim>\<open>MAC address must be 6 bytes, got %d\<close>\<close>
  | DialFailed string      \<comment> \<open>\<^verbatim>\<open>dial broadcast %s\<close>\<close>
  | SendFailed             \<comment> \<open>\<^verbatim>\<open>send WoL packet\<close>\<close>

text \<open>What \<^verbatim>\<open>SendWoL\<close> does to the network, in the order it does it.\<close>

datatype net_event =
    Dial string string       \<comment> \<open>\<^verbatim>\<open>net.Dial(network, addr)\<close>\<close>
  | Write string "byte list" \<comment> \<open>\<^verbatim>\<open>conn.Write(b)\<close> on the connection to the address\<close>
  | Close string             \<comment> \<open>the deferred \<^verbatim>\<open>conn.Close()\<close>\<close>

text \<open>
  The network answers: whether a dial to an address succeeds, and whether a write of a
  payload on that connection does.
\<close>

record net =
  dial_ok :: "string \<Rightarrow> string \<Rightarrow> bool"
  write_ok :: "string \<Rightarrow> byte list \<Rightarrow> bool"

text \<open>
  The built-in \<^verbatim>\<open>copy(dst[off:], src)\<close>: it copies \<^verbatim>\<open>min(len(dst) - off, len(src))\<close>
  bytes and leaves the rest of \<^verbatim>\<open>dst\<close> as it is.
\<close>

definition copy_bytes :: "byte list \<Rightarrow> nat \<Rightarrow> byte list \<Rightarrow> byte list" where
  "copy_bytes dst off src =
     (let n = min (length dst - off) (length src)
      in take off dst @ take n src @ drop (off + n) dst)"

text \<open>
  The two loops of \<^verbatim>\<open>SendWoL\<close> over \<^verbatim>\<open>var packet [102]byte\<close>, which starts zeroed:
  \<^verbatim>\<open>for i := 0; i < 6; i++ { packet[i] = 0xFF }\<close> and
  \<^verbatim>\<open>for i := 0; i < 16; i++ { copy(packet[6+i*6:], mac) }\<close>.
\<close>

definition magic_packet :: "byte list \<Rightarrow> byte list" where
  "magic_packet mac =
     fold (\<lambda>i packet. copy_bytes packet (6 + i * 6) mac) [0..<16]
       (fold (\<lambda>i packet. packet[i := 0xFF]) [0..<6] (replicate 102 0))"

text \<open>
  \<^verbatim>\<open>net.ParseMAC\<close> belongs to the Go standard library and is a parameter: \<open>None\<close> is its
  error, \<open>Some hw\<close> the hardware address (6, 8 or 20 bytes in Go). The result is the
  returned error (\<open>None\<close> for \<^verbatim>\<open>nil\<close>) and the network events in order.
\<close>

definition SendWoL ::
  "(string \<Rightarrow> byte list option) \<Rightarrow> net \<Rightarrow> string \<Rightarrow> string \<Rightarrow> wol_error option \<times> net_event list"
where
  "SendWoL ParseMAC nw macStr broadcastAddr =
     (case ParseMAC macStr of
        None \<Rightarrow> (Some (InvalidMAC macStr), [])
      | Some mac \<Rightarrow>
          if length mac \<noteq> 6 then (Some (MACLength (length mac)), [])
          else
            let packet = magic_packet mac;
                addr = broadcastAddr @ '':9''
            in if \<not> dial_ok nw ''udp'' addr then (Some (DialFailed addr), [Dial ''udp'' addr])
               else if \<not> write_ok nw addr packet
                 then (Some SendFailed, [Dial ''udp'' addr, Write addr packet, Close addr])
                 else (None, [Dial ''udp'' addr, Write addr packet, Close addr]))"

subsection \<open>BroadcastAddr\<close>

text \<open>\<^verbatim>\<open>net.IPNet\<close>: an address of 4 or 16 bytes and a mask.\<close>

record IPNet =
  IP :: "byte list"
  Mask :: "byte list"

text \<open>
  \<^verbatim>\<open>net.IP.To4\<close> of the standard library: a 4-byte address is itself, a 16-byte
  IPv4-mapped address (ten zero bytes, \<^verbatim>\<open>ff ff\<close>) gives its last four bytes, anything
  else \<^verbatim>\<open>nil\<close>.
\<close>

definition To4 :: "byte list \<Rightarrow> byte list option" where
  "To4 ip =
     (if length ip = 4 then Some ip
      else if length ip = 16 \<and> take 10 ip = replicate 10 0 \<and> ip ! 10 = 0xFF \<and> ip ! 11 = 0xFF
        then Some (drop 12 ip)
      else None)"

text \<open>
  \<^verbatim>\<open>for i := range ip { broadcast[i] = ip[i] | ^mask[i] }\<close>, every index checked as the
  Go run time checks it.
\<close>

fun broadcast_loop :: "nat list \<Rightarrow> byte list \<Rightarrow> byte list \<Rightarrow> byte list \<Rightarrow> panic + byte list" where
  "broadcast_loop [] ip msk broadcast = Inr broadcast"
| "broadcast_loop (i # rest) ip msk broadcast =
     (if i < length ip \<and> i < length msk \<and> i < length broadcast
      then broadcast_loop rest ip msk (broadcast[i := ip ! i OR NOT (msk ! i)])
      else Inl IndexOutOfRange)"

text \<open>The result is \<open>Inr None\<close> for \<^verbatim>\<open>nil\<close>.\<close>

definition BroadcastAddr :: "IPNet \<Rightarrow> panic + byte list option" where
  "BroadcastAddr ipNet =
     (case To4 (IP ipNet) of
        None \<Rightarrow> Inr None
      | Some ip \<Rightarrow>
          (case broadcast_loop [0..<length ip] ip (Mask ipNet) (replicate 4 0) of
             Inl e \<Rightarrow> Inl e
           | Inr broadcast \<Rightarrow> Inr (Some broadcast)))"

section \<open>NetBIOS node status (package probe)\<close>

text \<open>
  Reads of a slice as the Go run time checks them: \<^verbatim>\<open>data[i]\<close> and \<^verbatim>\<open>data[lo:hi]\<close> panic
  outside the bounds. A position is a natural number: \<^verbatim>\<open>pos\<close> starts at 12 and only grows.
\<close>

definition index :: "byte list \<Rightarrow> nat \<Rightarrow> panic + byte" where
  "index data i = (if i < length data then Inr (data ! i) else Inl IndexOutOfRange)"

definition subslice :: "byte list \<Rightarrow> nat \<Rightarrow> nat \<Rightarrow> panic + byte list" where
  "subslice data lo hi =
     (if lo \<le> hi \<and> hi \<le> length data then Inr (take (hi - lo) (drop lo data))
      else Inl IndexOutOfRange)"

text \<open>The conversion \<^verbatim>\<open>string(b)\<close> of bytes, byte for byte.\<close>

definition string_of_bytes :: "byte list \<Rightarrow> string" where
  "string_of_bytes bs = map (\<lambda>b. char_of (unat b)) bs"

text \<open>
  \<^verbatim>\<open>strings.TrimRight(s, cutset)\<close> for a cutset of ASCII characters, which Go trims byte
  by byte.
\<close>

definition TrimRight :: "string \<Rightarrow> string \<Rightarrow> string" where
  "TrimRight s cutset = rev (dropWhile (\<lambda>c. c \<in> set cutset) (rev s))"

text \<open>
  The label walk, used for the question name and for an uncompressed answer name:
  \<^verbatim>\<open>for pos < len(data) && data[pos] != 0x00 { labelLen := int(data[pos]); pos += labelLen + 1 }\<close>.
  It returns the position at which the loop stops.
\<close>

function skip_labels :: "byte list \<Rightarrow> nat \<Rightarrow> panic + nat" where
  "skip_labels data pos =
     (if pos < length data then
        (case index data pos of
           Inl e \<Rightarrow> Inl e
         | Inr b \<Rightarrow>
             if b \<noteq> 0x00 then
               (case index data pos of
                  Inl e \<Rightarrow> Inl e
                | Inr labelLen \<Rightarrow> skip_labels data (pos + (unat labelLen + 1)))
             else Inr pos)
      else Inr pos)"
  by pat_completeness auto
termination
  by (relation "measure (\<lambda>(data, pos). length data - pos)") auto

text \<open>
  The loop over the name table:
  \<^verbatim>\<open>for i := 0; i < numNames && pos+18 <= len(data); i++\<close>, each entry a 15-byte name, a
  suffix byte and two flag bytes, the high one first.
\<close>

function names_loop :: "byte list \<Rightarrow> nat \<Rightarrow> nat \<Rightarrow> nat \<Rightarrow> panic + string" where
  "names_loop data numNames i pos =
     (if i < numNames \<and> pos + 18 \<le> length data then
        (case subslice data pos (pos + 15) of
           Inl e \<Rightarrow> Inl e
         | Inr raw \<Rightarrow>
        (case index data (pos + 15) of
           Inl e \<Rightarrow> Inl e
         | Inr sfx \<Rightarrow>
        (case index data (pos + 16) of
           Inl e \<Rightarrow> Inl e
         | Inr hi \<Rightarrow>
        (case index data (pos + 17) of
           Inl e \<Rightarrow> Inl e
         | Inr lo \<Rightarrow>
             let name = TrimRight (string_of_bytes raw) [CHR '' '', CHR 0x00];
                 flags = push_bit 8 (ucast hi :: 16 word) OR ucast lo;
                 isGroup = (flags AND 0x8000 \<noteq> 0)
             in if sfx = 0x00 \<and> \<not> isGroup \<and> name \<noteq> '''' then Inr name
                else names_loop data numNames (i + 1) (pos + 18)))))
      else Inr '''')"
  by pat_completeness auto
termination
  by (relation "measure (\<lambda>(data, numNames, i, pos). numNames - i)") auto

text \<open>
  The part of \<^verbatim>\<open>parseNBSTATResponse\<close> before the name table. \<open>Inr None\<close> is one of its
  \<^verbatim>\<open>return ""\<close>; \<open>Inr (Some (numNames, pos))\<close> is the state in which the loop over the
  name table starts.
\<close>

definition nbstat_header :: "byte list \<Rightarrow> panic + (nat \<times> nat) option" where
  "nbstat_header data =
     (if length data < 57 then Inr None
      else
        (case skip_labels data 12 of
           Inl e \<Rightarrow> Inl e
         | Inr p1 \<Rightarrow>
             let pos = p1 + 1 + 4
             in if pos \<ge> length data then Inr None
                else
                  (case index data pos of
                     Inl e \<Rightarrow> Inl e
                   | Inr b \<Rightarrow>
                  (case (if b AND 0xC0 = 0xC0 then Inr (pos + 2)
                         else (case skip_labels data pos of
                                 Inl e \<Rightarrow> Inl e
                               | Inr p2 \<Rightarrow> Inr (p2 + 1))) of
                     Inl e \<Rightarrow> Inl e
                   | Inr p3 \<Rightarrow>
                       let pos = p3 + 10
                       in if pos \<ge> length data then Inr None
                          else
                            (case index data pos of
                               Inl e \<Rightarrow> Inl e
                             | Inr n \<Rightarrow>
                                 let numNames = unat n; pos = pos + 1
                                 in if numNames = 0 \<or> pos + 18 > length data then Inr None
                                    else Inr (Some (numNames, pos)))))))"

definition parseNBSTATResponse :: "byte list \<Rightarrow> panic + string" where
  "parseNBSTATResponse data =
     (case nbstat_header data of
        Inl e \<Rightarrow> Inl e
      | Inr None \<Rightarrow> Inr ''''
      | Inr (Some (numNames, pos)) \<Rightarrow> names_loop data numNames 0 pos)"

subsection \<open>The name table as the specification describes it\<close>

text \<open>
  The complete 18-byte entries of a name table that starts at the head of the bytes given;
  a tail of fewer than 18 bytes is no entry.
\<close>

fun complete_entries :: "byte list \<Rightarrow> byte list list" where
  "complete_entries bs =
     (if length bs < 18 then [] else take 18 bs # complete_entries (drop 18 bs))"

definition entry_name :: "byte list \<Rightarrow> string" where
  "entry_name e = TrimRight (string_of_bytes (take 15 e)) [CHR '' '', CHR 0x00]"

text \<open>
  An entry qualifies when its suffix (byte 15) is zero, the group flag is zero (bit 15 of
  the flags, which is bit 7 of byte 16) and the trimmed name is not empty.
\<close>

definition unique_workstation :: "byte list \<Rightarrow> bool" where
  "unique_workstation e = (e ! 15 = 0x00 \<and> \<not> bit (e ! 16) 7 \<and> entry_name e \<noteq> '''')"

definition first_unique_name :: "byte list list \<Rightarrow> string" where
  "first_unique_name es =
     (case find unique_workstation es of None \<Rightarrow> '''' | Some e \<Rightarrow> entry_name e)"

text \<open>
  The canned response of the specification's scenario: the 12-byte header, the echoed
  question name (one label of 32 bytes and its terminator), type and class, the answer
  name as a compressed pointer, type, class, TTL and data length, the count 2, a group
  record with suffix \<open>0x1E\<close> and the record \<^verbatim>\<open>"WORKSTATION    "\<close> with suffix \<open>0x00\<close> and
  flags \<open>0x0400\<close>.
\<close>

definition canned_response :: "byte list" where
  "canned_response =
     [0x00, 0x01, 0x84, 0x00, 0x00, 0x01, 0x00, 0x01, 0x00, 0x00, 0x00, 0x00] @
     [0x20, 0x43, 0x4B] @ concat (replicate 15 [0x43, 0x41]) @ [0x00] @
     [0x00, 0x21, 0x00, 0x01] @
     [0xC0, 0x0C] @
     [0x00, 0x21, 0x00, 0x01, 0x00, 0x00, 0x00, 0x00, 0x00, 0x25] @
     [0x02] @
     [0x57, 0x4F, 0x52, 0x4B, 0x47, 0x52, 0x4F, 0x55, 0x50, 0x20, 0x20, 0x20, 0x20, 0x20, 0x20,
      0x1E, 0x84, 0x00] @
     [0x57, 0x4F, 0x52, 0x4B, 0x53, 0x54, 0x41, 0x54, 0x49, 0x4F, 0x4E, 0x20, 0x20, 0x20, 0x20,
      0x00, 0x04, 0x00]"

subsection \<open>The response as the specification describes it\<close>

text \<open>
  The specification reads a response from front to back. Walking the labels of a name to
  its \<open>0x00\<close> terminator: each label is a length byte and that many bytes; what is left
  after the terminator is the result, and there is none when the bytes end first.
\<close>

function walk_labels :: "byte list \<Rightarrow> byte list option" where
  "walk_labels [] = None"
| "walk_labels (b # bs) = (if b = 0x00 then Some bs else walk_labels (drop (unat b) bs))"
  by pat_completeness auto
termination
  by (relation "measure length") auto

text \<open>
  The bytes after the answer name: a name whose first byte has its two top bits set is a
  compressed pointer of 2 bytes (the specification writes it \<open>0xC0 xx\<close>, the pointer to
  an offset below 256; the code tests the two bits, \<^verbatim>\<open>data[pos]&0xC0 == 0xC0\<close>), any other
  name is a sequence of labels.
\<close>

definition skip_answer_name :: "byte list \<Rightarrow> byte list option" where
  "skip_answer_name bs =
     (case bs of
        [] \<Rightarrow> None
      | b # _ \<Rightarrow> if b AND 0xC0 = 0xC0 then Some (drop 2 bs) else walk_labels bs)"

text \<open>
  The count of names and the bytes of the name table: skip the 12-byte header, walk the
  question name, skip type and class (4 bytes), skip the answer name, skip type, class,
  TTL and data length (10 bytes), read the count (1 byte); the table is what follows.
\<close>

definition name_table :: "byte list \<Rightarrow> (byte \<times> byte list) option" where
  "name_table data =
     (case walk_labels (drop 12 data) of
        None \<Rightarrow> None
      | Some after_question \<Rightarrow>
          (case skip_answer_name (drop 4 after_question) of
             None \<Rightarrow> None
           | Some after_answer \<Rightarrow>
               (case drop 10 after_answer of
                  [] \<Rightarrow> None
                | num_names # table \<Rightarrow> Some (num_names, table))))"

text \<open>
  The parser of the specification: a response of at least 57 bytes; the first qualifying
  name among the first \<open>num_names\<close> entries of 18 bytes each; empty on any failure.
\<close>

definition nbstat_name :: "byte list \<Rightarrow> string" where
  "nbstat_name data =
     (if length data < 57 then ''''
      else
        (case name_table data of
           None \<Rightarrow> ''''
         | Some (num_names, table) \<Rightarrow>
             first_unique_name (take (unat num_names) (complete_entries table))))"

text \<open>
  A response laid out as the specification has it: a header, the echoed question name as
  labels and their terminator, type and class, the answer name, the ten bytes of type,
  class, TTL and data length, the count, the table. A label has 1 to 255 bytes; an answer
  name is a pointer, whose first byte has its two top bits set, or a sequence of labels
  whose first byte has not.
\<close>

definition encode_labels :: "byte list list \<Rightarrow> byte list" where
  "encode_labels ls = concat (map (\<lambda>l. of_nat (length l) # l) ls)"

definition labels_ok :: "byte list list \<Rightarrow> bool" where
  "labels_ok ls = list_all (\<lambda>l. 0 < length l \<and> length l < 256) ls"

datatype answer_name = Pointer byte byte | LabelSequence "byte list list"

fun encode_answer :: "answer_name \<Rightarrow> byte list" where
  "encode_answer (Pointer p x) = [p, x]"
| "encode_answer (LabelSequence ls) = encode_labels ls @ [0x00]"

fun answer_ok :: "answer_name \<Rightarrow> bool" where
  "answer_ok (Pointer p x) = (p AND 0xC0 = 0xC0)"
| "answer_ok (LabelSequence ls) =
     (labels_ok ls \<and> hd (encode_labels ls @ [0x00]) AND 0xC0 \<noteq> 0xC0)"

definition response_head ::
  "byte list \<Rightarrow> byte list list \<Rightarrow> byte list \<Rightarrow> answer_name \<Rightarrow> byte list \<Rightarrow> byte \<Rightarrow> byte list"
where
  "response_head hdr question tc answer rr num_names =
     hdr @ encode_labels question @ [0x00] @ tc @ encode_answer answer @ rr @ [num_names]"

definition well_formed ::
  "byte list \<Rightarrow> byte list list \<Rightarrow> byte list \<Rightarrow> answer_name \<Rightarrow> byte list \<Rightarrow> bool"
where
  "well_formed hdr question tc answer rr =
     (length hdr = 12 \<and> labels_ok question \<and> length tc = 4 \<and> answer_ok answer \<and>
      length rr = 10)"

section \<open>Banner grabbing (package probe)\<close>

text \<open>
  \<^verbatim>\<open>sanitizeBanner\<close>: the first line, the runes from 32 to 126 of it (\<^verbatim>\<open>WriteRune\<close> writes
  such a rune as one byte), trimmed, and cut to 117 bytes and three dots when longer than
  120.
\<close>

definition sanitizeBanner :: "string \<Rightarrow> string" where
  "sanitizeBanner raw0 =
     (let idx = IndexAny raw0 [CHR 0x0D, CHR 0x0A];
          raw = (if idx \<ge> 0 then take (nat idx) raw0 else raw0);
          clean = concat (map (\<lambda>r. if r \<ge> 32 \<and> r < 127 then [char_of r] else []) (runes raw));
          result = TrimSpace clean
      in if length result > 120 then take 117 result @ ''...'' else result)"

subsection \<open>The sanitizer as the specification describes it\<close>

text \<open>A printable ASCII byte, \<open>0x20\<close> to \<open>0x7E\<close>.\<close>

definition printable :: "char \<Rightarrow> bool" where
  "printable c = (0x20 \<le> (of_char c :: nat) \<and> (of_char c :: nat) \<le> 0x7E)"

text \<open>The prefix up to the first carriage return or line feed.\<close>

definition first_line :: "string \<Rightarrow> string" where
  "first_line raw = takeWhile (\<lambda>c. c \<noteq> CHR 0x0D \<and> c \<noteq> CHR 0x0A) raw"

text \<open>The first line without its unprintable bytes and without the spaces around it.\<close>

definition cleaned :: "string \<Rightarrow> string" where
  "cleaned raw =
     rev (dropWhile (\<lambda>c. c = CHR '' '') (rev (dropWhile (\<lambda>c. c = CHR '' '')
       (filter printable (first_line raw)))))"

text \<open>The banner was truncated when the cleaned line is longer than 120 bytes.\<close>

definition truncated :: "string \<Rightarrow> bool" where
  "truncated raw = (length (cleaned raw) > 120)"

section \<open>Device type (package probe, fingerprint.go)\<close>

text \<open>
  A Go map is given by its entries in the order in which the one \<^verbatim>\<open>range\<close> loop over it
  sees them in this run; Go fixes no order, so two runs on the same map are two such
  lists with the same entries. A lookup \<^verbatim>\<open>m[k]\<close> is \<^const>\<open>map_of\<close>.
\<close>

type_synonym 'k gomap = "('k \<times> string) list"

definition TypeRouter :: string where "TypeRouter = ''Router/Gateway''"
definition TypeSwitch :: string where "TypeSwitch = ''Network Switch''"
definition TypeAP :: string where "TypeAP = ''Access Point''"
definition TypePrinter :: string where "TypePrinter = ''Printer''"
definition TypeNAS :: string where "TypeNAS = ''NAS/Storage''"
definition TypeCamera :: string where "TypeCamera = ''IP Camera''"
definition TypeSmartTV :: string where "TypeSmartTV = ''Smart TV''"
definition TypePhone :: string where "TypePhone = ''Phone/Tablet''"
definition TypeDesktop :: string where "TypeDesktop = ''Desktop/Laptop''"
definition TypeServer :: string where "TypeServer = ''Server''"
definition TypeIoT :: string where "TypeIoT = ''IoT Device''"
definition TypeSmartHome :: string where "TypeSmartHome = ''Smart Home''"
definition TypeGameConsole :: string where "TypeGameConsole = ''Game Console''"
definition TypeUnknown :: string where "TypeUnknown = ''Unknown''"

text \<open>
  The rule loop of \<^verbatim>\<open>fingerprintByManufacturer\<close> and \<^verbatim>\<open>fingerprintByServices\<close>:
  \<^verbatim>\<open>for _, rule := range rules { for _, kw := range rule.keywords { if strings.Contains(s, kw) { return rule.dtype } } }\<close>
  and \<^verbatim>\<open>return ""\<close> after it.
\<close>

fun match_rules :: "(string list \<times> string) list \<Rightarrow> string \<Rightarrow> string" where
  "match_rules [] s = ''''"
| "match_rules ((keywords, dtype) # rules) s =
     (if list_ex (Contains s) keywords then dtype else match_rules rules s)"

definition manufacturer_rules :: "(string list \<times> string) list" where
  "manufacturer_rules =
     [([''apple'', ''samsung'', ''huawei'', ''xiaomi'', ''oppo'', ''vivo'', ''oneplus'',
        ''motorola'', ''nokia'', ''sony mobile'', ''google'', ''pixel''], TypePhone),
      ([''canon'', ''epson'', ''brother'', ''lexmark'', ''xerox'', ''ricoh'',
        ''kyocera'', ''konica''], TypePrinter),
      ([''cisco'', ''juniper'', ''arista'', ''ubiquiti'', ''mikrotik'', ''netgear'',
        ''tp-link'', ''d-link'', ''linksys'', ''zyxel'', ''zte''], TypeRouter),
      ([''synology'', ''qnap'', ''western digital'', ''buffalo'', ''seagate''], TypeNAS),
      ([''lg electronics'', ''tcl'', ''hisense'', ''vizio'', ''roku''], TypeSmartTV),
      ([''nintendo'', ''valve''], TypeGameConsole),
      ([''espressif'', ''tuya'', ''shelly'', ''sonoff'', ''wemo'', ''ring'',
        ''nest'', ''amazon'', ''echo''], TypeSmartHome),
      ([''dell'', ''lenovo'', ''hewlett'', ''hp inc'', ''acer'', ''intel'',
        ''realtek'', ''gigabyte'', ''msi'', ''asustek''], TypeDesktop),
      ([''hikvision'', ''dahua'', ''axis'', ''reolink'', ''amcrest'', ''wyze''], TypeCamera)]"

definition fingerprintByManufacturer :: "string \<Rightarrow> string" where
  "fingerprintByManufacturer mfr =
     (if mfr = '''' then '''' else match_rules manufacturer_rules mfr)"

definition service_rules :: "(string list \<times> string) list" where
  "service_rules =
     [([''printer'', ''_ipp.'', ''_pdl-''], TypePrinter),
      ([''chromecast'', ''googlecast'', ''smarttv'', ''roku'', ''airplay'', ''_raop.''], TypeSmartTV),
      ([''camera'', ''ipcam''], TypeCamera),
      ([''_smb.'', ''_afp.'', ''timemachine''], TypeNAS),
      ([''homekit'', ''_hap.''], TypeSmartHome),
      ([''playstation'', ''xbox'', ''nintendo''], TypeGameConsole)]"

definition fingerprintByServices :: "string \<Rightarrow> string" where
  "fingerprintByServices extra =
     (if extra = '''' then '''' else match_rules service_rules extra)"

text \<open>\<^verbatim>\<open>flattenMap\<close> and \<^verbatim>\<open>flattenBanners\<close>: the parts in the order of the \<^verbatim>\<open>range\<close> loop.\<close>

definition flattenMap :: "string gomap \<Rightarrow> string" where
  "flattenMap m =
     (if length m = 0 then ''''
      else Join (map (\<lambda>(k, v). k @ '' '' @ v) m) '' '')"

definition flattenBanners :: "int gomap \<Rightarrow> string" where
  "flattenBanners m =
     (if length m = 0 then ''''
      else Join (map (\<lambda>(_, v). v) m) '' '')"

text \<open>\<^verbatim>\<open>portSet[p]\<close> of a set built from the list of ports is membership in the list.\<close>

definition fingerprintByPorts ::
  "(int \<Rightarrow> string) \<Rightarrow> int list \<Rightarrow> int gomap \<Rightarrow> string \<Rightarrow> string"
where
  "fingerprintByPorts ul ports banners httpServer =
     (let portSet = (\<lambda>p. p \<in> set ports)
      in if portSet 9100 \<or> portSet 631 then TypePrinter
         else if portSet 554 then TypeCamera
         else if portSet 53 \<or> portSet 67 \<or> portSet 68 then TypeRouter
         else if portSet 139 \<and> portSet 445 \<and> (portSet 80 \<or> portSet 443) then TypeNAS
         else if portSet 22 \<and> (portSet 80 \<or> portSet 443) \<and>
                 (portSet 3306 \<or> portSet 5432 \<or> portSet 27017 \<or> portSet 9200 \<or> portSet 6379)
           then TypeServer
         else if httpServer \<noteq> '''' \<and>
                 (Contains httpServer ''printer'' \<or> Contains httpServer ''cups'')
           then TypePrinter
         else if Contains (ToLower ul (flattenBanners banners)) ''ssh'' then TypeDesktop
         else '''')"

text \<open>
  \<^verbatim>\<open>Fingerprint\<close>. The arguments \<^verbatim>\<open>mac\<close> and \<^verbatim>\<open>netbiosName\<close> are not used by the code.
\<close>

definition Fingerprint ::
  "(int \<Rightarrow> string) \<Rightarrow> string \<Rightarrow> string \<Rightarrow> int list \<Rightarrow> int gomap \<Rightarrow> string \<Rightarrow> string \<Rightarrow>
   string gomap \<Rightarrow> string"
where
  "Fingerprint ul mac manufacturer openPorts banners netbiosName httpServer extraData =
     (let mfr = ToLower ul manufacturer;
          srv = ToLower ul httpServer;
          allExtra = ToLower ul (flattenMap extraData)
      in if fingerprintByManufacturer mfr \<noteq> '''' then fingerprintByManufacturer mfr
         else if fingerprintByServices allExtra \<noteq> '''' then fingerprintByServices allExtra
         else if fingerprintByPorts ul openPorts banners srv \<noteq> ''''
           then fingerprintByPorts ul openPorts banners srv
         else TypeUnknown)"

subsection \<open>First non-empty verdict\<close>

text \<open>The first string of a list that is not empty, and the empty string when all are.\<close>

fun first_non_empty :: "string list \<Rightarrow> string" where
  "first_non_empty [] = ''''"
| "first_non_empty (v # vs) = (if v \<noteq> '''' then v else first_non_empty vs)"

subsection \<open>Keywords without a space\<close>

text \<open>
  A keyword that is not empty and has no space in it cannot lie across the single space
  that joins two parts of a flattened map.
\<close>

definition space_free :: "string \<Rightarrow> bool" where
  "space_free kw = (kw \<noteq> [] \<and> CHR '' '' \<notin> set kw)"

section \<open>Operating system (package probe, os_detect.go)\<close>

definition OSWindows :: string where "OSWindows = ''Windows''"
definition OSLinux :: string where "OSLinux = ''Linux''"
definition OSMacOS :: string where "OSMacOS = ''macOS''"
definition OSFreeBSD :: string where "OSFreeBSD = ''FreeBSD''"
definition OSAndroid :: string where "OSAndroid = ''Android''"
definition OSIOS :: string where "OSIOS = ''iOS''"
definition OSUnknown :: string where "OSUnknown = ''''"

definition linuxHints :: "string list" where
  "linuxHints = [''ubuntu'', ''debian'', ''fedora'', ''centos'', ''rhel'',
     ''arch'', ''gentoo'', ''opensuse'', ''suse'', ''alpine'', ''kali'', ''mint'',
     ''manjaro'', ''raspbian'', ''raspberry'', ''armbian'']"

definition osFromSSHBanner :: "(int \<Rightarrow> string) \<Rightarrow> int gomap \<Rightarrow> string" where
  "osFromSSHBanner ul banners =
     (case map_of banners 22 of
        None \<Rightarrow> ''''
      | Some banner \<Rightarrow>
          if banner = '''' then ''''
          else
            let b = ToLower ul banner
            in if list_ex (Contains b) linuxHints then OSLinux
               else if Contains b ''freebsd'' then OSFreeBSD
               else if Contains b ''microsoft'' \<or> Contains b ''windows'' then OSWindows
               else if Contains b ''openssh'' then OSLinux
               else '''')"

definition osFromHTTPServer :: "(int \<Rightarrow> string) \<Rightarrow> string \<Rightarrow> string" where
  "osFromHTTPServer ul server =
     (if server = '''' then ''''
      else
        let s = ToLower ul server
        in if Contains s ''microsoft'' \<or> Contains s ''iis'' then OSWindows
           else if Contains s ''ubuntu'' \<or> Contains s ''debian'' \<or> Contains s ''centos'' \<or>
                   Contains s ''fedora'' \<or> Contains s ''red hat'' then OSLinux
           else if Contains s ''darwin'' \<or> Contains s ''macos'' then OSMacOS
           else if Contains s ''freebsd'' then OSFreeBSD
           else '''')"

text \<open>
  \<^verbatim>\<open>osFromBanners\<close>: the \<^verbatim>\<open>range\<close> loop over the banners, which returns at the first banner
  that names a system.
\<close>

fun osFromBanners :: "(int \<Rightarrow> string) \<Rightarrow> int gomap \<Rightarrow> string" where
  "osFromBanners ul [] = ''''"
| "osFromBanners ul ((port, banner) # rest) =
     (if port = 22 then osFromBanners ul rest
      else
        let b = ToLower ul banner
        in if Contains b ''windows'' \<or> Contains b ''microsoft'' \<or> Contains b ''win32'' \<or>
              Contains b ''win64'' then OSWindows
           else if Contains b ''ubuntu'' \<or> Contains b ''debian'' \<or> Contains b ''centos'' \<or>
                   Contains b ''fedora'' \<or> Contains b ''linux'' then OSLinux
           else if Contains b ''darwin'' \<or> Contains b ''macos'' \<or> Contains b ''mac os'' then OSMacOS
           else if Contains b ''freebsd'' then OSFreeBSD
           else osFromBanners ul rest)"

definition osFromExtraData :: "(int \<Rightarrow> string) \<Rightarrow> string gomap \<Rightarrow> string" where
  "osFromExtraData ul extra =
     (if length extra = 0 then ''''
      else
        let combined = ToLower ul (flattenMap extra)
        in if Contains combined ''iphone'' \<or> Contains combined ''ipad'' \<or>
              Contains combined ''ipod'' then OSIOS
           else if Contains combined ''apple'' \<or> Contains combined ''airplay'' \<or>
                   Contains combined ''_companion-link'' \<or> Contains combined ''macos'' \<or>
                   Contains combined ''mac os'' then OSMacOS
           else if Contains combined ''android'' then OSAndroid
           else if Contains combined ''windows'' \<or> Contains combined ''microsoft'' then OSWindows
           else if Contains combined ''linux'' \<or> Contains combined ''ubuntu'' \<or>
                   Contains combined ''debian'' \<or> Contains combined ''fedora'' then OSLinux
           else '''')"

definition classifyTTL :: "int \<Rightarrow> string" where
  "classifyTTL ttl =
     (if ttl \<le> 0 then ''''
      else if ttl \<le> 64 then OSLinux
      else if ttl \<le> 128 then OSWindows
      else OSLinux)"

text \<open>
  The network as \<^verbatim>\<open>osFromTTL\<close> meets it, in a state \<open>'w\<close> that every probe may change:
  whether the context is done, and what \<^verbatim>\<open>getTTL(ip, port, timeout)\<close> returns (it dials the
  host and reads the socket option, or returns \<open>-1\<close>).
\<close>

record 'w ttl_net =
  ctxDone :: "'w \<Rightarrow> bool"
  getTTL :: "'w \<Rightarrow> string \<Rightarrow> int \<Rightarrow> int \<Rightarrow> int \<times> 'w"

text \<open>
  The list of ports to try: the known ports, then each of 80, 443 and 22 that is not yet
  in the list.
\<close>

definition ttl_ports :: "int list \<Rightarrow> int list" where
  "ttl_ports knownPorts =
     fold (\<lambda>p ports. if p \<in> set ports then ports else ports @ [p]) [80, 443, 22] knownPorts"

text \<open>
  The probing loop: it stops with no verdict when the context is done, skips a port whose
  TTL is not positive, and classifies the first positive TTL.
\<close>

fun ttl_loop :: "'w ttl_net \<Rightarrow> 'w \<Rightarrow> string \<Rightarrow> int list \<Rightarrow> int \<Rightarrow> string \<times> 'w" where
  "ttl_loop nw w ip [] timeout = ('''', w)"
| "ttl_loop nw w ip (port # ports) timeout =
     (if ctxDone nw w then ('''', w)
      else
        (case getTTL nw w ip port timeout of
           (ttl, w') \<Rightarrow>
             if ttl \<le> 0 then ttl_loop nw w' ip ports timeout
             else (classifyTTL ttl, w')))"

definition osFromTTL :: "'w ttl_net \<Rightarrow> 'w \<Rightarrow> string \<Rightarrow> int list \<Rightarrow> int \<Rightarrow> string \<times> 'w" where
  "osFromTTL nw w ip knownPorts timeout = ttl_loop nw w ip (ttl_ports knownPorts) timeout"

definition osFromPorts :: "int list \<Rightarrow> string" where
  "osFromPorts ports =
     (let portSet = (\<lambda>p. p \<in> set ports)
      in if portSet 3389 \<or> (portSet 445 \<and> portSet 5985) then OSWindows
         else if portSet 548 then OSMacOS
         else '''')"

text \<open>
  \<^verbatim>\<open>DetectOS\<close>: the verdict and the state of the network after it. Only the sixth step
  touches the network.
\<close>

definition DetectOS ::
  "(int \<Rightarrow> string) \<Rightarrow> 'w ttl_net \<Rightarrow> 'w \<Rightarrow> string \<Rightarrow> int list \<Rightarrow> int gomap \<Rightarrow> string \<Rightarrow> string \<Rightarrow>
   string gomap \<Rightarrow> int \<Rightarrow> string \<times> 'w"
where
  "DetectOS ul nw w ip openPorts banners httpServer netbiosName extraData timeout =
     (if osFromSSHBanner ul banners \<noteq> '''' then (osFromSSHBanner ul banners, w)
      else if osFromHTTPServer ul httpServer \<noteq> '''' then (osFromHTTPServer ul httpServer, w)
      else if osFromBanners ul banners \<noteq> '''' then (osFromBanners ul banners, w)
      else if osFromExtraData ul extraData \<noteq> '''' then (osFromExtraData ul extraData, w)
      else if netbiosName \<noteq> '''' then (OSWindows, w)
      else
        (case osFromTTL nw w ip openPorts timeout of
           (os, w') \<Rightarrow>
             if os \<noteq> '''' then (os, w')
             else if osFromPorts openPorts \<noteq> '''' then (osFromPorts openPorts, w')
             else (OSUnknown, w')))"

section \<open>The prober (package probe)\<close>

record Result =
  Latency :: int
  ReverseDNS :: string
  Banners :: "int gomap"
  HTTPTitle :: string
  HTTPServer :: string
  DeviceType :: string
  NetBIOSName :: string

definition isHTTPPort :: "int \<Rightarrow> bool" where
  "isHTTPPort port = (port = 80 \<or> port = 443 \<or> port = 8080 \<or> port = 8443 \<or> port = 9090)"

text \<open>
  The network as \<^verbatim>\<open>RunAll\<close> meets it, in a state \<open>'w\<close> that every probe may change: the
  answers of \<^verbatim>\<open>ReverseDNS(ip)\<close>, \<^verbatim>\<open>TCPPing(ctx, ip, openPorts, timeout)\<close>,
  \<^verbatim>\<open>QueryNetBIOS(ip, timeout)\<close> and \<^verbatim>\<open>FetchHTTPInfo(ctx, ip, port, timeout)\<close> (title and
  server), and what the dial and the read of \<^verbatim>\<open>GrabBanner\<close> bring: \<open>None\<close> when the dial
  fails, else the bytes read.
\<close>

record 'w probe_net =
  reverseDNS :: "'w \<Rightarrow> string \<Rightarrow> string \<times> 'w"
  tcpPing :: "'w \<Rightarrow> string \<Rightarrow> int list \<Rightarrow> int \<times> 'w"
  queryNetBIOS :: "'w \<Rightarrow> string \<Rightarrow> string \<times> 'w"
  readBanner :: "'w \<Rightarrow> string \<Rightarrow> int \<Rightarrow> string option \<times> 'w"
  fetchHTTPInfo :: "'w \<Rightarrow> string \<Rightarrow> int \<Rightarrow> (string \<times> string) \<times> 'w"

text \<open>The probes in the order in which \<^verbatim>\<open>RunAll\<close> makes them.\<close>

datatype probe_call =
    CallReverseDNS
  | CallTCPPing
  | CallQueryNetBIOS
  | CallGrabBanner int
  | CallFetchHTTPInfo int

text \<open>\<^verbatim>\<open>GrabBanner\<close>: nothing on a failed dial or an empty read, else the sanitized bytes.\<close>

definition GrabBanner :: "'w probe_net \<Rightarrow> 'w \<Rightarrow> string \<Rightarrow> int \<Rightarrow> string \<times> 'w" where
  "GrabBanner nw w ip port =
     (case readBanner nw w ip port of
        (None, w') \<Rightarrow> ('''', w')
      | (Some buf, w') \<Rightarrow> if length buf = 0 then ('''', w') else (sanitizeBanner buf, w'))"

text \<open>\<^verbatim>\<open>result.Banners[port] = banner\<close>: the entry of the port is replaced or added.\<close>

fun map_store :: "int \<Rightarrow> string \<Rightarrow> int gomap \<Rightarrow> int gomap" where
  "map_store k v [] = [(k, v)]"
| "map_store k v ((k', v') # m) = (if k = k' then (k, v) # m else (k', v') # map_store k v m)"

text \<open>
  The first loop over the open ports. Its \<^verbatim>\<open>select\<close> on \<^verbatim>\<open>ctx.Done()\<close> has a \<^verbatim>\<open>break\<close>
  that leaves the \<^verbatim>\<open>select\<close> only, so the loop has no exit but its end.
\<close>

fun banner_loop ::
  "'w probe_net \<Rightarrow> 'w \<Rightarrow> string \<Rightarrow> int list \<Rightarrow> Result \<Rightarrow> Result \<times> 'w \<times> probe_call list"
where
  "banner_loop nw w ip [] result = (result, w, [])"
| "banner_loop nw w ip (port # ports) result =
     (if isHTTPPort port then banner_loop nw w ip ports result
      else
        (case GrabBanner nw w ip port of
           (banner, w') \<Rightarrow>
             (case banner_loop nw w' ip ports
                     (if banner \<noteq> '''' then result\<lparr>Banners := map_store port banner (Banners result)\<rparr>
                      else result) of
                (result', w'', calls) \<Rightarrow> (result', w'', CallGrabBanner port # calls))))"

text \<open>
  The composite banner of an HTTP port: the server, then the title in double quotes,
  joined by \<^verbatim>\<open>" | "\<close>.
\<close>

definition http_banner_parts :: "string \<Rightarrow> string \<Rightarrow> string list" where
  "http_banner_parts title server =
     (if server \<noteq> '''' then [server] else []) @
     (if title \<noteq> '''' then [[CHR 0x22] @ title @ [CHR 0x22]] else [])"

text \<open>The second loop over the open ports, with the same \<^verbatim>\<open>select\<close>.\<close>

fun http_loop ::
  "'w probe_net \<Rightarrow> 'w \<Rightarrow> string \<Rightarrow> int list \<Rightarrow> Result \<Rightarrow> Result \<times> 'w \<times> probe_call list"
where
  "http_loop nw w ip [] result = (result, w, [])"
| "http_loop nw w ip (port # ports) result =
     (if \<not> isHTTPPort port then http_loop nw w ip ports result
      else
        (case fetchHTTPInfo nw w ip port of
           ((title, server), w') \<Rightarrow>
             let r1 = (if title \<noteq> '''' \<and> HTTPTitle result = '''' then result\<lparr>HTTPTitle := title\<rparr>
                       else result);
                 r2 = (if server \<noteq> '''' \<and> HTTPServer r1 = '''' then r1\<lparr>HTTPServer := server\<rparr>
                       else r1);
                 parts = http_banner_parts title server;
                 r3 = (if length parts > 0
                       then r2\<lparr>Banners := map_store port (Join parts '' | '') (Banners r2)\<rparr>
                       else r2)
             in (case http_loop nw w' ip ports r3 of
                   (result', w'', calls) \<Rightarrow> (result', w'', CallFetchHTTPInfo port # calls))))"

text \<open>
  \<^verbatim>\<open>RunAll\<close> up to the end of the first loop: reverse DNS, TCP ping, NetBIOS, banners. (The
  two loops stand under \<^verbatim>\<open>if len(openPorts) > 0\<close>; on an empty list they do nothing.)
\<close>

definition run_to_banners ::
  "'w probe_net \<Rightarrow> 'w \<Rightarrow> string \<Rightarrow> int list \<Rightarrow> Result \<times> 'w \<times> probe_call list"
where
  "run_to_banners nw w ip openPorts =
     (case reverseDNS nw w ip of
        (rdns, w1) \<Rightarrow>
     (case tcpPing nw w1 ip openPorts of
        (latency, w2) \<Rightarrow>
     (case queryNetBIOS nw w2 ip of
        (netbios, w3) \<Rightarrow>
          let result = \<lparr>Latency = latency, ReverseDNS = rdns, Banners = [], HTTPTitle = '''',
                         HTTPServer = '''', DeviceType = '''', NetBIOSName = netbios\<rparr>
          in if length openPorts > 0 then
               (case banner_loop nw w3 ip openPorts result of
                  (result', w4, calls) \<Rightarrow>
                    (result', w4, [CallReverseDNS, CallTCPPing, CallQueryNetBIOS] @ calls))
             else (result, w3, [CallReverseDNS, CallTCPPing, CallQueryNetBIOS]))))"

text \<open>
  \<^verbatim>\<open>RunAll\<close>: the result, the state of the network after it and the probes made. The
  banner map goes to \<^verbatim>\<open>Fingerprint\<close> in the order of its entries here; the device type
  does not depend on that order.
\<close>

definition RunAll ::
  "(int \<Rightarrow> string) \<Rightarrow> 'w probe_net \<Rightarrow> 'w \<Rightarrow> string \<Rightarrow> string \<Rightarrow> string \<Rightarrow> int list \<Rightarrow>
   string gomap \<Rightarrow> Result \<times> 'w \<times> probe_call list"
where
  "RunAll ul nw w ip mac manufacturer openPorts extraData =
     (case run_to_banners nw w ip openPorts of
        (r4, w4, calls4) \<Rightarrow>
     (case (if length openPorts > 0 then http_loop nw w4 ip openPorts r4 else (r4, w4, [])) of
        (r5, w5, calls5) \<Rightarrow>
          (r5\<lparr>DeviceType := Fingerprint ul mac manufacturer openPorts (Banners r5)
                                (NetBIOSName r5) (HTTPServer r5) extraData\<rparr>,
           w5, calls4 @ calls5)))"

subsection \<open>The answers of the HTTP ports\<close>

text \<open>
  What \<^verbatim>\<open>FetchHTTPInfo\<close> answers on the HTTP ports of a list, asked one after the other in
  the order of the list, from a given state of the network: the titles and servers.
\<close>

fun http_answers :: "'w probe_net \<Rightarrow> 'w \<Rightarrow> string \<Rightarrow> int list \<Rightarrow> (string \<times> string) list" where
  "http_answers nw w ip [] = []"
| "http_answers nw w ip (port # ports) =
     (if isHTTPPort port
      then (case fetchHTTPInfo nw w ip port of
              (answer, w') \<Rightarrow> answer # http_answers nw w' ip ports)
      else http_answers nw w ip ports)"

text \<open>
  A host for the scenarios: an SSH greeting on port 22, a server that answers \<^verbatim>\<open>Secure\<close> and
  \<^verbatim>\<open>nginx\<close> on port 443 and \<^verbatim>\<open>Plain\<close> and \<^verbatim>\<open>Apache\<close> on port 80, nothing else; the
  answers do not depend on what was probed before.
\<close>

definition demo_host :: "unit probe_net" where
  "demo_host =
     \<lparr>reverseDNS = \<lambda>w _. (''host.lan'', w),
      tcpPing = \<lambda>w _ _. (3, w),
      queryNetBIOS = \<lambda>w _. ('''', w),
      readBanner = \<lambda>w _ port. (if port = 22 then Some ''SSH-2.0-OpenSSH_9.0'' else None, w),
      fetchHTTPInfo = \<lambda>w _ port.
        (if port = 443 then (''Secure'', ''nginx'')
         else if port = 80 then (''Plain'', ''Apache'')
         else ('''', ''''), w)\<rparr>"

section \<open>Network interfaces (package discovery, network_utils.go)\<close>

subsection \<open>What package net provides\<close>

text \<open>
  \<^verbatim>\<open>net.Flags\<close> (a \<^verbatim>\<open>uint\<close>, of which the code tests the five lowest bits), and
  \<^verbatim>\<open>net.Interface\<close> together with what its method \<^verbatim>\<open>Addrs()\<close> returns for it (\<open>None\<close>
  for an error). An address is a \<^verbatim>\<open>*net.IPNet\<close> or something else, such as a
  \<^verbatim>\<open>*net.IPAddr\<close>.
\<close>

definition FlagUp :: "32 word" where "FlagUp = 1"
definition FlagBroadcast :: "32 word" where "FlagBroadcast = 2"
definition FlagLoopback :: "32 word" where "FlagLoopback = 4"
definition FlagPointToPoint :: "32 word" where "FlagPointToPoint = 8"
definition FlagMulticast :: "32 word" where "FlagMulticast = 16"

datatype addr = IPNetAddr IPNet | IPAddrAddr "byte list"

record Interface =
  ifIndex :: int
  ifMTU :: int
  ifName :: string
  ifHardwareAddr :: "byte list"
  ifFlags :: "32 word"
  ifAddrs :: "addr list option"

text \<open>
  \<^verbatim>\<open>IPMask.Size\<close>. The inner loop of \<^verbatim>\<open>simpleMaskLength\<close> counts the leading one bits of a
  byte: \<^verbatim>\<open>for v&0x80 != 0 { n++; v <<= 1 }\<close>; it stops because the byte gets smaller each
  time its top bit is shifted out.
\<close>

function leading_ones :: "byte \<Rightarrow> int \<Rightarrow> byte \<times> int" where
  "leading_ones v n =
     (if v AND 0x80 \<noteq> 0 then leading_ones (push_bit 1 v) (n + 1) else (v, n))"
  by pat_completeness auto
termination
proof (relation "measure (\<lambda>(v, n). unat v)")
  show "wf (measure (\<lambda>(v :: byte, n :: int). unat v))" by simp
next
  fix v :: byte and n :: int
  assume "v AND 0x80 \<noteq> 0"
  then have b: "bit v 7"
    using and_exp_eq_0_iff_not_bit [of v 7] by simp
  have ge: "128 \<le> unat v"
  proof (rule ccontr)
    assume "\<not> 128 \<le> unat v"
    then have "unat v < 2 ^ 7" by simp
    then have "\<not> bit (unat v) 7" by (simp add: bit_iff_odd)
    with b show False by (simp add: bit_unsigned_iff)
  qed
  have lt: "unat v < 256" using unsigned_less [of v] by simp
  have "push_bit 1 v = v * 2" by (simp add: push_bit_eq_mult)
  then have u: "unat (push_bit 1 v) = (2 * unat v) mod 256"
    by (simp add: unat_word_ariths mult.commute)
  have "(2 * unat v) mod 256 = (2 * unat v - 256) mod 256"
    using ge by (intro le_mod_geq) simp
  also have "\<dots> = 2 * unat v - 256"
    using lt by (intro mod_less) simp
  finally have "(2 * unat v) mod 256 = 2 * unat v - 256" .
  with u ge lt have "unat (push_bit 1 v) < unat v" by simp
  then show "((push_bit 1 v, n + 1), (v, n)) \<in> measure (\<lambda>(v, n). unat v)" by simp
qed

text \<open>
  \<^verbatim>\<open>simpleMaskLength\<close>: the number of leading one bits when all bits after them are zero,
  and \<open>-1\<close> otherwise.
\<close>

fun simpleMaskLength :: "byte list \<Rightarrow> int" where
  "simpleMaskLength [] = 0"
| "simpleMaskLength (v # rest) =
     (if v = 0xFF then
        (let n = simpleMaskLength rest in if n = -1 then -1 else n + 8)
      else
        (case leading_ones v 0 of
           (v', n) \<Rightarrow>
             if v' \<noteq> 0 then -1
             else if list_ex (\<lambda>b. b \<noteq> 0) rest then -1
             else n))"

definition Size :: "byte list \<Rightarrow> int \<times> int" where
  "Size m =
     (let ones = simpleMaskLength m
      in if ones = -1 then (0, 0) else (ones, int (length m) * 8))"

text \<open>
  The texts that package net and package fmt print for an address, a network and a
  hardware address are parameters.
\<close>

record net_strings =
  ipString :: "byte list \<Rightarrow> string"
  ipNetString :: "IPNet \<Rightarrow> string"
  macString :: "byte list \<Rightarrow> string"

subsection \<open>isLANSuitable\<close>

text \<open>The loop over the addresses: true at the first IPv4 network of at most 30 mask bits.\<close>

fun lan_addr_loop :: "addr list \<Rightarrow> bool" where
  "lan_addr_loop [] = False"
| "lan_addr_loop (IPAddrAddr a # addrs) = lan_addr_loop addrs"
| "lan_addr_loop (IPNetAddr ipnet # addrs) =
     (if To4 (IP ipnet) = None then lan_addr_loop addrs
      else
        (case Size (Mask ipnet) of
           (ones, bits) \<Rightarrow> if ones \<le> 30 then True else lan_addr_loop addrs))"

definition isLANSuitable :: "Interface \<Rightarrow> bool" where
  "isLANSuitable iface =
     (if ifFlags iface AND FlagUp = 0 then False
      else if ifFlags iface AND FlagLoopback \<noteq> 0 then False
      else if ifFlags iface AND FlagPointToPoint \<noteq> 0 then False
      else if ifFlags iface AND FlagBroadcast = 0 then False
      else
        (case ifAddrs iface of
           None \<Rightarrow> False
         | Some addrs \<Rightarrow> lan_addr_loop addrs))"

subsection \<open>ListAllInterfaces\<close>

record InterfaceEntry =
  Name :: string
  IPv4 :: string
  Subnet :: string
  MAC :: string
  Flags :: string
  IsVPN :: bool

text \<open>\<^verbatim>\<open>joinStrings\<close>.\<close>

fun joinStrings_from :: "string \<Rightarrow> nat \<Rightarrow> string list \<Rightarrow> string \<Rightarrow> string" where
  "joinStrings_from result i [] sep = result"
| "joinStrings_from result i (s # ss) sep =
     joinStrings_from ((if i > 0 then result @ sep else result) @ s) (i + 1) ss sep"

definition joinStrings :: "string list \<Rightarrow> string \<Rightarrow> string" where
  "joinStrings ss sep = joinStrings_from '''' 0 ss sep"

text \<open>
  The loop over the addresses of one interface: the entry of the first IPv4 network, after
  which the loop breaks, or none.
\<close>

fun entry_addr_loop :: "net_strings \<Rightarrow> Interface \<Rightarrow> addr list \<Rightarrow> InterfaceEntry option" where
  "entry_addr_loop fmt iface [] = None"
| "entry_addr_loop fmt iface (IPAddrAddr a # addrs) = entry_addr_loop fmt iface addrs"
| "entry_addr_loop fmt iface (IPNetAddr ipnet # addrs) =
     (if To4 (IP ipnet) = None then entry_addr_loop fmt iface addrs
      else
        let isVPN = (ifFlags iface AND FlagPointToPoint \<noteq> 0 \<or> ifFlags iface AND FlagBroadcast = 0);
            flags = (if ifFlags iface AND FlagBroadcast \<noteq> 0 then [''broadcast''] else []) @
                    (if ifFlags iface AND FlagPointToPoint \<noteq> 0 then [''point-to-point''] else []) @
                    (if ifFlags iface AND FlagMulticast \<noteq> 0 then [''multicast''] else [])
        in Some \<lparr>Name = ifName iface,
                 IPv4 = ipString fmt (IP ipnet),
                 Subnet = ipNetString fmt ipnet,
                 MAC = macString fmt (ifHardwareAddr iface),
                 Flags = (if length flags > 0 then ''['' @ joinStrings flags '', '' @ '']'' else ''''),
                 IsVPN = isVPN\<rparr>)"

text \<open>The body of the loop over the interfaces: the entry it appends, if any.\<close>

definition interface_entry :: "net_strings \<Rightarrow> Interface \<Rightarrow> InterfaceEntry option" where
  "interface_entry fmt iface =
     (if ifFlags iface AND FlagUp = 0 \<or> ifFlags iface AND FlagLoopback \<noteq> 0 then None
      else
        (case ifAddrs iface of
           None \<Rightarrow> None
         | Some addrs \<Rightarrow> entry_addr_loop fmt iface addrs))"

text \<open>
  \<^verbatim>\<open>ListAllInterfaces\<close>, given what \<^verbatim>\<open>net.Interfaces()\<close> returns (\<open>None\<close> for an error).
\<close>

fun entries_loop :: "net_strings \<Rightarrow> Interface list \<Rightarrow> InterfaceEntry list" where
  "entries_loop fmt [] = []"
| "entries_loop fmt (iface # interfaces) =
     (case interface_entry fmt iface of
        None \<Rightarrow> entries_loop fmt interfaces
      | Some entry \<Rightarrow> entry # entries_loop fmt interfaces)"

definition ListAllInterfaces :: "net_strings \<Rightarrow> Interface list option \<Rightarrow> InterfaceEntry list" where
  "ListAllInterfaces fmt interfaces =
     (case interfaces of
        None \<Rightarrow> []
      | Some ifs \<Rightarrow> entries_loop fmt ifs)"

subsection \<open>The interface predicates of the specification\<close>

text \<open>An IPv4 network whose mask has at most 30 one bits.\<close>

fun lan_ipv4 :: "addr \<Rightarrow> bool" where
  "lan_ipv4 (IPAddrAddr a) = False"
| "lan_ipv4 (IPNetAddr ipnet) = (To4 (IP ipnet) \<noteq> None \<and> fst (Size (Mask ipnet)) \<le> 30)"

text \<open>An IPv4 network, whatever its mask.\<close>

fun is_ipv4 :: "addr \<Rightarrow> bool" where
  "is_ipv4 (IPAddrAddr a) = False"
| "is_ipv4 (IPNetAddr ipnet) = (To4 (IP ipnet) \<noteq> None)"

text \<open>
  Interfaces for the scenarios: one that is up, broadcast-capable, multicast and not
  point-to-point, with the one address 10.128.0.2/32; one with the same flags and the
  address 192.168.1.37/24; a point-to-point tunnel with 10.8.0.2/24; and texts that tell
  nothing.
\<close>

definition host_route_nic :: Interface where
  "host_route_nic =
     \<lparr>ifIndex = 2, ifMTU = 1460, ifName = ''ens4'',
      ifHardwareAddr = [0x42, 0x01, 0x0A, 0x80, 0x00, 0x02],
      ifFlags = FlagUp OR FlagBroadcast OR FlagMulticast,
      ifAddrs = Some [IPNetAddr \<lparr>IP = [10, 128, 0, 2], Mask = [255, 255, 255, 255]\<rparr>]\<rparr>"

definition lan_nic :: Interface where
  "lan_nic =
     \<lparr>ifIndex = 3, ifMTU = 1500, ifName = ''eth0'',
      ifHardwareAddr = [0x42, 0x01, 0x0A, 0x80, 0x00, 0x03],
      ifFlags = FlagUp OR FlagBroadcast OR FlagMulticast,
      ifAddrs = Some [IPNetAddr \<lparr>IP = [192, 168, 1, 37], Mask = [255, 255, 255, 0]\<rparr>]\<rparr>"

definition tunnel_nic :: Interface where
  "tunnel_nic =
     \<lparr>ifIndex = 7, ifMTU = 1420, ifName = ''wg0'',
      ifHardwareAddr = [],
      ifFlags = FlagUp OR FlagPointToPoint,
      ifAddrs = Some [IPNetAddr \<lparr>IP = [10, 8, 0, 2], Mask = [255, 255, 255, 0]\<rparr>]\<rparr>"

definition plain_strings :: net_strings where
  "plain_strings = \<lparr>ipString = \<lambda>_. ''ip'', ipNetString = \<lambda>_. ''net'', macString = \<lambda>_. ''mac''\<rparr>"

section \<open>Wake-on-LAN: the magic packet and the broadcast address\<close>

lemma upt_0_16: "[0..<16] = [0, 1, 2, 3, 4, 5, 6, 7, 8, 9, 10, 11, 12, 13, 14, 15]"
  by (simp add: upt_rec)

lemma upt_0_6: "[0..<6] = [0, 1, 2, 3, 4, 5]"
  by (simp add: upt_rec)

lemma upt_0_4: "[0..<4] = [0, 1, 2, 3]"
  by (simp add: upt_rec)

lemma replicate_4: "replicate 4 x = [x, x, x, x]"
  by (simp add: eval_nat_numeral)

lemma replicate_6: "replicate 6 x = [x, x, x, x, x, x]"
  by (simp add: eval_nat_numeral)

lemma replicate_16: "replicate 16 x = [x, x, x, x, x, x, x, x, x, x, x, x, x, x, x, x]"
  by (simp add: eval_nat_numeral)

lemma length_6_cases: "length (xs :: 'a list) = 6 \<Longrightarrow> \<exists>a b c d e f. xs = [a, b, c, d, e, f]"
  by (auto simp: length_Suc_conv eval_nat_numeral)

lemma length_4_cases: "length (xs :: 'a list) = 4 \<Longrightarrow> \<exists>a b c d. xs = [a, b, c, d]"
  by (auto simp: length_Suc_conv eval_nat_numeral)

text \<open>The two loops leave six \<open>0xFF\<close> and then the address sixteen times, nothing else.\<close>

lemma magic_packet_eq:
  assumes "length mac = 6"
  shows "magic_packet mac = replicate 6 0xFF @ concat (replicate 16 mac)"
proof -
  from assms obtain a b c d e f where m: "mac = [a, b, c, d, e, f]"
    using length_6_cases by blast
  show ?thesis
    unfolding m magic_packet_def upt_0_16 upt_0_6
    by (simp add: copy_bytes_def eval_nat_numeral)
qed

lemma length_concat_replicate: "length (concat (replicate n xs)) = n * length xs"
  by (induction n) simp_all

lemma magic_packet_shape:
  assumes "length mac = 6"
  shows "length (magic_packet mac) = 102"
    and "take 6 (magic_packet mac) = replicate 6 0xFF"
    and "drop 6 (magic_packet mac) = concat (replicate 16 mac)"
  using assms by (simp_all add: magic_packet_eq length_concat_replicate)

text \<open>
  Claim C1. When the string parses to a hardware address of 6 bytes, \<^verbatim>\<open>SendWoL\<close> builds one
  payload of exactly 102 bytes, six \<open>0xFF\<close> followed by the address sixteen times, dials
  \<^verbatim>\<open>udp\<close> to the broadcast address at port 9 and, when the dial succeeds, writes exactly
  that payload on the connection (the error is then \<^verbatim>\<open>nil\<close>, or the send error when the
  write fails; a failed dial is the dial error and nothing is written). When the string
  does not parse, or parses to an address that is not 6 bytes long, \<^verbatim>\<open>SendWoL\<close> returns an
  error and touches the network not at all.
\<close>

theorem SendWoL_magic_packet:
  "(ParseMAC macStr = Some mac \<and> length mac = 6 \<longrightarrow>
      (\<exists>packet.
          length packet = 102 \<and>
          take 6 packet = replicate 6 0xFF \<and>
          drop 6 packet = concat (replicate 16 mac) \<and>
          SendWoL ParseMAC nw macStr broadcastAddr =
            (if dial_ok nw ''udp'' (broadcastAddr @ '':9'')
             then (if write_ok nw (broadcastAddr @ '':9'') packet then None else Some SendFailed,
                   [Dial ''udp'' (broadcastAddr @ '':9''),
                    Write (broadcastAddr @ '':9'') packet,
                    Close (broadcastAddr @ '':9'')])
             else (Some (DialFailed (broadcastAddr @ '':9'')),
                   [Dial ''udp'' (broadcastAddr @ '':9'')])))) \<and>
   ((\<forall>hw. ParseMAC macStr = Some hw \<longrightarrow> length hw \<noteq> 6) \<longrightarrow>
      (\<exists>e. SendWoL ParseMAC nw macStr broadcastAddr = (Some e, [])))"
proof (intro conjI impI)
  assume a: "ParseMAC macStr = Some mac \<and> length mac = 6"
  then have len: "length mac = 6" by simp
  show "\<exists>packet.
          length packet = 102 \<and>
          take 6 packet = replicate 6 0xFF \<and>
          drop 6 packet = concat (replicate 16 mac) \<and>
          SendWoL ParseMAC nw macStr broadcastAddr =
            (if dial_ok nw ''udp'' (broadcastAddr @ '':9'')
             then (if write_ok nw (broadcastAddr @ '':9'') packet then None else Some SendFailed,
                   [Dial ''udp'' (broadcastAddr @ '':9''),
                    Write (broadcastAddr @ '':9'') packet,
                    Close (broadcastAddr @ '':9'')])
             else (Some (DialFailed (broadcastAddr @ '':9'')),
                   [Dial ''udp'' (broadcastAddr @ '':9'')]))"
  proof (intro exI conjI)
    show "length (magic_packet mac) = 102" by (rule magic_packet_shape(1) [OF len])
    show "take 6 (magic_packet mac) = replicate 6 0xFF" by (rule magic_packet_shape(2) [OF len])
    show "drop 6 (magic_packet mac) = concat (replicate 16 mac)"
      by (rule magic_packet_shape(3) [OF len])
    show "SendWoL ParseMAC nw macStr broadcastAddr =
            (if dial_ok nw ''udp'' (broadcastAddr @ '':9'')
             then (if write_ok nw (broadcastAddr @ '':9'') (magic_packet mac)
                   then None else Some SendFailed,
                   [Dial ''udp'' (broadcastAddr @ '':9''),
                    Write (broadcastAddr @ '':9'') (magic_packet mac),
                    Close (broadcastAddr @ '':9'')])
             else (Some (DialFailed (broadcastAddr @ '':9'')),
                   [Dial ''udp'' (broadcastAddr @ '':9'')]))"
      using a by (simp add: SendWoL_def Let_def)
  qed
next
  assume "\<forall>hw. ParseMAC macStr = Some hw \<longrightarrow> length hw \<noteq> 6"
  then show "\<exists>e. SendWoL ParseMAC nw macStr broadcastAddr = (Some e, [])"
    by (cases "ParseMAC macStr") (simp_all add: SendWoL_def)
qed

text \<open>
  The theorem at the address \<^verbatim>\<open>aa:bb:cc:dd:ee:ff\<close> on a network where everything succeeds:
  the one write carries six \<open>0xFF\<close>, then the address at bytes 6 to 11 and again at bytes
  96 to 101; and a string that does not parse is an error with no network event.
\<close>

theorem SendWoL_magic_packet_witness:
  "(\<exists>packet.
      SendWoL (\<lambda>s. if s = ''aa:bb:cc:dd:ee:ff'' then Some [0xAA, 0xBB, 0xCC, 0xDD, 0xEE, 0xFF] else None)
        \<lparr>dial_ok = \<lambda>_ _. True, write_ok = \<lambda>_ _. True\<rparr> ''aa:bb:cc:dd:ee:ff'' ''192.168.1.255'' =
        (None, [Dial ''udp'' ''192.168.1.255:9'', Write ''192.168.1.255:9'' packet,
                Close ''192.168.1.255:9'']) \<and>
      length packet = 102 \<and>
      take 6 packet = [0xFF, 0xFF, 0xFF, 0xFF, 0xFF, 0xFF] \<and>
      take 6 (drop 6 packet) = [0xAA, 0xBB, 0xCC, 0xDD, 0xEE, 0xFF] \<and>
      take 6 (drop 96 packet) = [0xAA, 0xBB, 0xCC, 0xDD, 0xEE, 0xFF]) \<and>
   (\<exists>e. SendWoL (\<lambda>s. if s = ''aa:bb:cc:dd:ee:ff'' then Some [0xAA, 0xBB, 0xCC, 0xDD, 0xEE, 0xFF] else None)
        \<lparr>dial_ok = \<lambda>_ _. True, write_ok = \<lambda>_ _. True\<rparr> ''not a mac'' ''192.168.1.255'' =
        (Some e, []))"
proof -
  let ?P = "\<lambda>s. if s = ''aa:bb:cc:dd:ee:ff'' then Some [0xAA, 0xBB, 0xCC, 0xDD, 0xEE, 0xFF :: byte] else None"
  let ?nw = "\<lparr>dial_ok = \<lambda>_ _. True, write_ok = \<lambda>_ _. True\<rparr>"
  have "\<exists>packet.
          length packet = 102 \<and>
          take 6 packet = replicate 6 0xFF \<and>
          drop 6 packet = concat (replicate 16 [0xAA, 0xBB, 0xCC, 0xDD, 0xEE, 0xFF :: byte]) \<and>
          SendWoL ?P ?nw ''aa:bb:cc:dd:ee:ff'' ''192.168.1.255'' =
            (None, [Dial ''udp'' ''192.168.1.255:9'', Write ''192.168.1.255:9'' packet,
                    Close ''192.168.1.255:9''])"
    using SendWoL_magic_packet [of ?P "''aa:bb:cc:dd:ee:ff''" "[0xAA, 0xBB, 0xCC, 0xDD, 0xEE, 0xFF]"
        ?nw "''192.168.1.255''"]
    by simp
  then obtain packet where p:
    "length packet = 102"
    "take 6 packet = replicate 6 0xFF"
    "drop 6 packet = concat (replicate 16 [0xAA, 0xBB, 0xCC, 0xDD, 0xEE, 0xFF :: byte])"
    "SendWoL ?P ?nw ''aa:bb:cc:dd:ee:ff'' ''192.168.1.255'' =
       (None, [Dial ''udp'' ''192.168.1.255:9'', Write ''192.168.1.255:9'' packet,
               Close ''192.168.1.255:9''])"
    by blast
  have d96: "drop 96 packet = drop 90 (drop 6 packet)" by simp
  have first: "\<exists>packet.
      SendWoL ?P ?nw ''aa:bb:cc:dd:ee:ff'' ''192.168.1.255'' =
        (None, [Dial ''udp'' ''192.168.1.255:9'', Write ''192.168.1.255:9'' packet,
                Close ''192.168.1.255:9'']) \<and>
      length packet = 102 \<and>
      take 6 packet = [0xFF, 0xFF, 0xFF, 0xFF, 0xFF, 0xFF] \<and>
      take 6 (drop 6 packet) = [0xAA, 0xBB, 0xCC, 0xDD, 0xEE, 0xFF] \<and>
      take 6 (drop 96 packet) = [0xAA, 0xBB, 0xCC, 0xDD, 0xEE, 0xFF]"
  proof (intro exI conjI)
    show "SendWoL ?P ?nw ''aa:bb:cc:dd:ee:ff'' ''192.168.1.255'' =
        (None, [Dial ''udp'' ''192.168.1.255:9'', Write ''192.168.1.255:9'' packet,
                Close ''192.168.1.255:9''])" by (rule p(4))
    show "length packet = 102" by (rule p(1))
    show "take 6 packet = [0xFF, 0xFF, 0xFF, 0xFF, 0xFF, 0xFF]"
      using p(2) by (simp add: replicate_6)
    show "take 6 (drop 6 packet) = [0xAA, 0xBB, 0xCC, 0xDD, 0xEE, 0xFF]"
      unfolding p(3) by (simp add: replicate_16)
    show "take 6 (drop 96 packet) = [0xAA, 0xBB, 0xCC, 0xDD, 0xEE, 0xFF]"
      unfolding d96 p(3) by (simp add: replicate_16)
  qed
  have second: "\<exists>e. SendWoL ?P ?nw ''not a mac'' ''192.168.1.255'' = (Some e, [])"
    using SendWoL_magic_packet [of ?P "''not a mac''" "[]" ?nw "''192.168.1.255''"]
    by simp
  from first second show ?thesis by blast
qed

text \<open>
  Claim C2. For a 4-byte address and a 4-byte mask \<^verbatim>\<open>BroadcastAddr\<close> returns four bytes,
  byte \<open>i\<close> being \<open>ip[i] | ~mask[i]\<close>, so that the broadcast address OR the mask is
  all ones; and the broadcast address of 192.168.1.37 with the mask of a /24 is
  192.168.1.255.
\<close>

theorem BroadcastAddr_ipv4:
  "(length ip = 4 \<and> length m = 4 \<longrightarrow>
      (\<exists>b. BroadcastAddr \<lparr>IP = ip, Mask = m\<rparr> = Inr (Some b) \<and>
           length b = 4 \<and>
           (\<forall>i < 4. b ! i = ip ! i OR NOT (m ! i)) \<and>
           map2 (OR) b m = replicate 4 0xFF)) \<and>
   BroadcastAddr \<lparr>IP = [192, 168, 1, 37], Mask = [255, 255, 255, 0]\<rparr> =
     Inr (Some [192, 168, 1, 255])"
proof (intro conjI impI)
  assume "length ip = 4 \<and> length m = 4"
  then obtain a b c d a' b' c' d' where e: "ip = [a, b, c, d]" "m = [a', b', c', d']"
    using length_4_cases by metis
  have run: "BroadcastAddr \<lparr>IP = ip, Mask = m\<rparr> =
      Inr (Some [a OR NOT a', b OR NOT b', c OR NOT c', d OR NOT d'])"
    unfolding e by (simp add: BroadcastAddr_def To4_def upt_0_4 replicate_4)
  have ones: "\<And>x y :: byte. (x OR NOT y) OR y = 0xFF"
    by (simp add: or.assoc)
  have idx: "\<forall>i < 4. [a OR NOT a', b OR NOT b', c OR NOT c', d OR NOT d'] ! i = ip ! i OR NOT (m ! i)"
  proof (intro allI impI)
    fix i :: nat assume "i < 4"
    then have "i = 0 \<or> i = 1 \<or> i = 2 \<or> i = 3" by arith
    then show "[a OR NOT a', b OR NOT b', c OR NOT c', d OR NOT d'] ! i = ip ! i OR NOT (m ! i)"
      unfolding e by (auto simp: numeral_2_eq_2 numeral_3_eq_3)
  qed
  show "\<exists>b. BroadcastAddr \<lparr>IP = ip, Mask = m\<rparr> = Inr (Some b) \<and>
           length b = 4 \<and>
           (\<forall>i < 4. b ! i = ip ! i OR NOT (m ! i)) \<and>
           map2 (OR) b m = replicate 4 0xFF"
    using run idx ones unfolding e(2) by (simp add: replicate_4)
next
  show "BroadcastAddr \<lparr>IP = [192, 168, 1, 37], Mask = [255, 255, 255, 0]\<rparr> =
     Inr (Some [192, 168, 1, 255])"
    by (simp add: BroadcastAddr_def To4_def upt_0_4 replicate_4)
qed

text \<open>The theorem at 10.0.5.9 with the mask of a /16: the broadcast address is 10.0.255.255.\<close>

theorem BroadcastAddr_ipv4_witness:
  "BroadcastAddr \<lparr>IP = [10, 0, 5, 9], Mask = [255, 255, 0, 0]\<rparr> = Inr (Some [10, 0, 255, 255]) \<and>
   map2 (OR) [10, 0, 255, 255] [255, 255, 0, 0] = replicate 4 (0xFF :: byte)"
proof -
  obtain b where b: "BroadcastAddr \<lparr>IP = [10, 0, 5, 9], Mask = [255, 255, 0, 0]\<rparr> = Inr (Some b)"
    and ones: "map2 (OR) b [255, 255, 0, 0] = replicate 4 0xFF"
    using BroadcastAddr_ipv4 [of "[10, 0, 5, 9]" "[255, 255, 0, 0]"] by auto
  have "BroadcastAddr \<lparr>IP = [10, 0, 5, 9], Mask = [255, 255, 0, 0]\<rparr> = Inr (Some [10, 0, 255, 255])"
    by (simp add: BroadcastAddr_def To4_def upt_0_4 replicate_4)
  with b ones show ?thesis by simp
qed

section \<open>Go strings: the rune loop\<close>

declare runes.simps(2) [simp del]

text \<open>
  What the decoder returns: the error rune and one byte, or a rune above \<open>0x7F\<close> and two
  to four bytes, all inside the string, the bytes after the first being continuation bytes.
\<close>

lemma decoderune_cases:
  assumes "decoderune s = (r, w)"
  shows "(r = runeError \<and> w = 1) \<or>
         (0x7F < r \<and> 2 \<le> w \<and> w \<le> length s \<and> list_all contb (take (w - 1) (tl s)))"
  using assms
  by (auto simp: decoderune_def Let_def split: list.splits if_splits)

lemma of_char_int_nat: "(of_char c :: int) = int (of_char c :: nat)"
  by (simp add: of_char_def)

section \<open>NetBIOS node status: the parser\<close>

declare skip_labels.simps [simp del] names_loop.simps [simp del] complete_entries.simps [simp del]

text \<open>The label walk returns a position, never a panic, and never moves backwards.\<close>

lemma skip_labels_total: "\<exists>p. skip_labels data pos = Inr p \<and> pos \<le> p"
proof (induction data pos rule: skip_labels.induct)
  case (1 data pos)
  show ?case
  proof (cases "pos < length data \<and> data ! pos \<noteq> 0")
    case True
    then obtain p where "skip_labels data (pos + (unat (data ! pos) + 1)) = Inr p"
      "pos + (unat (data ! pos) + 1) \<le> p"
      using "1.IH" [of "data ! pos" "data ! pos"] by (auto simp: index_def)
    with True show ?thesis
      by (subst skip_labels.simps) (simp add: index_def)
  next
    case False
    then show ?thesis
      by (subst skip_labels.simps) (auto simp: index_def)
  qed
qed

lemma bit15: "(w AND 0x8000 \<noteq> 0) = bit (w :: 16 word) 15"
proof -
  have m: "(0x8000 :: 16 word) = 2 ^ 15" by simp
  show ?thesis unfolding m by (rule and_exp_eq_0_iff_not_bit [THEN arg_cong [where f=Not], simplified])
qed

lemma group_flag:
  "((push_bit 8 (ucast (hi :: byte) :: 16 word) OR ucast (lo :: byte)) AND 0x8000 \<noteq> 0) = bit hi 7"
proof -
  have "\<not> bit lo 15" using bit_imp_le_length [of lo 15] by auto
  then show ?thesis unfolding bit15 by (simp add: bit_simps)
qed

lemma group_flag0:
  "((push_bit 8 (ucast (hi :: byte) :: 16 word) OR ucast (lo :: byte)) AND 0x8000 = 0) = (\<not> bit hi 7)"
  using group_flag [of hi lo] by blast

lemma complete_entries_step:
  "pos + 18 \<le> length data \<Longrightarrow>
   complete_entries (drop pos data) = take 18 (drop pos data) # complete_entries (drop (pos + 18) data)"
  by (subst complete_entries.simps) (simp add: add.commute)

lemma complete_entries_short:
  "\<not> pos + 18 \<le> length data \<Longrightarrow> complete_entries (drop pos data) = []"
  by (subst complete_entries.simps) simp

lemma names_loop_eq:
  "names_loop data numNames i pos =
     Inr (first_unique_name (take (numNames - i) (complete_entries (drop pos data))))"
proof (induction data numNames i pos rule: names_loop.induct)
  case (1 data numNames i pos)
  show ?case
  proof (cases "i < numNames \<and> pos + 18 \<le> length data")
    case False
    then show ?thesis
      by (subst names_loop.simps) (auto simp: first_unique_name_def complete_entries_short)
  next
    case True
    let ?e = "take 18 (drop pos data)"
    have n: "numNames - i = Suc (numNames - (i + 1))" using True by arith
    have e15: "?e ! 15 = data ! (pos + 15)" "?e ! 16 = data ! (pos + 16)"
      using True by simp_all
    have t15: "take 15 ?e = take 15 (drop pos data)" by (simp add: min_def)
    show ?thesis
    proof (cases "unique_workstation ?e")
      case u: True
      then show ?thesis using True
        apply (subst names_loop.simps)
        apply (simp add: complete_entries_step n first_unique_name_def index_def subslice_def
            Let_def group_flag0 unique_workstation_def entry_name_def e15 t15 del: One_nat_def)
        done
    next
      case u: False
      have "names_loop data numNames i pos = names_loop data numNames (i + 1) (pos + 18)"
        using True u
        apply (subst names_loop.simps)
        apply (auto simp add: index_def subslice_def
            Let_def group_flag0 unique_workstation_def entry_name_def e15 t15 simp del: One_nat_def)
        done
      also have "\<dots> = Inr (first_unique_name (take (numNames - (i + 1)) (complete_entries (drop (pos + 18) data))))"
      proof (rule "1.IH" [OF True _ _ _ _ refl refl refl])
        show "subslice data pos (pos + 15) = Inr (take 15 (drop pos data))"
          using True by (simp add: subslice_def)
        show "index data (pos + 15) = Inr (data ! (pos + 15))"
          using True by (simp add: index_def)
        show "index data (pos + 16) = Inr (data ! (pos + 16))"
          using True by (simp add: index_def)
        show "index data (pos + 17) = Inr (data ! (pos + 17))"
          using True by (simp add: index_def)
        show "\<not> (data ! (pos + 15) = 0 \<and>
                 \<not> (push_bit 8 (ucast (data ! (pos + 16)) :: 16 word) OR ucast (data ! (pos + 17))) AND 0x8000 \<noteq> 0 \<and>
                 TrimRight (string_of_bytes (take 15 (drop pos data))) [CHR '' '', CHR 0x00] \<noteq> [])"
          using u by (simp add: group_flag0 unique_workstation_def entry_name_def e15 t15)
      qed
      finally show ?thesis using u True
        by (simp add: complete_entries_step n first_unique_name_def del: One_nat_def)
    qed
  qed
qed


text \<open>The part before the name table reads inside the buffer only.\<close>

lemma nbstat_header_total: "\<exists>r. nbstat_header data = Inr r"
proof -
  obtain p1 where p1: "skip_labels data 12 = Inr p1"
    using skip_labels_total by blast
  obtain p2 where p2: "skip_labels data (p1 + 1 + 4) = Inr p2"
    using skip_labels_total by blast
  from p1 p2 show ?thesis
    by (simp add: nbstat_header_def index_def Let_def)
qed

lemma nbstat_header_Some:
  assumes "nbstat_header data = Inr (Some (numNames, pos))"
  shows "57 \<le> length data" and "29 \<le> pos" and "pos + 18 \<le> length data"
    and "numNames = unat (data ! (pos - 1))" and "0 < numNames"
proof -
  obtain p1 where p1: "skip_labels data 12 = Inr p1" "12 \<le> p1"
    using skip_labels_total by blast
  obtain p2 where p2: "skip_labels data (p1 + 1 + 4) = Inr p2" "p1 + 1 + 4 \<le> p2"
    using skip_labels_total by blast
  from assms p1 p2
  show "57 \<le> length data" and "29 \<le> pos" and "pos + 18 \<le> length data"
    and "numNames = unat (data ! (pos - 1))" and "0 < numNames"
    by (auto simp: nbstat_header_def index_def Let_def split: if_splits)
qed

lemma parseNBSTATResponse_eq:
  "parseNBSTATResponse data =
     Inr (case nbstat_header data of
            Inr (Some (numNames, pos)) \<Rightarrow>
              first_unique_name (take numNames (complete_entries (drop pos data)))
          | _ \<Rightarrow> '''')"
proof -
  obtain r where r: "nbstat_header data = Inr r"
    using nbstat_header_total by blast
  show ?thesis
    by (cases r) (auto simp: parseNBSTATResponse_def r names_loop_eq)
qed

lemma first_unique_name_found:
  assumes "es = xs @ e # ys" and "list_all (\<lambda>x. \<not> unique_workstation x) xs"
    and "unique_workstation e"
  shows "first_unique_name es = entry_name e"
proof -
  have "find unique_workstation (xs @ e # ys) = Some e"
    using assms(2,3) by (induction xs) simp_all
  then show ?thesis by (simp add: first_unique_name_def assms(1))
qed

lemma first_unique_name_none:
  assumes "list_all (\<lambda>x. \<not> unique_workstation x) es"
  shows "first_unique_name es = ''''"
proof -
  have "find unique_workstation es = None"
    using assms by (induction es) simp_all
  then show ?thesis by (simp add: first_unique_name_def)
qed

text \<open>
  The walk over a list of bytes and the walk of the code over positions in the buffer
  agree, and so do the two parsers.
\<close>

declare walk_labels.simps(2) [simp del]


lemma walk_labels_skip:
  "walk_labels (drop pos data) =
     (case skip_labels data pos of
        Inl e \<Rightarrow> None
      | Inr p \<Rightarrow> if p < length data then Some (drop (Suc p) data) else None)"
proof (induction data pos rule: skip_labels.induct)
  case (1 data pos)
  show ?case
  proof (cases "pos < length data")
    case False
    then show ?thesis by (subst skip_labels.simps) simp
  next
    case True
    then have d: "drop pos data = data ! pos # drop (Suc pos) data"
      by (simp add: Cons_nth_drop_Suc)
    show ?thesis
    proof (cases "data ! pos = 0")
      case z: True
      with True show ?thesis
        by (subst skip_labels.simps) (simp add: d index_def walk_labels.simps(2))
    next
      case nz: False
      have ih: "walk_labels (drop (pos + (unat (data ! pos) + 1)) data) =
         (case skip_labels data (pos + (unat (data ! pos) + 1)) of
            Inl e \<Rightarrow> None
          | Inr p \<Rightarrow> if p < length data then Some (drop (Suc p) data) else None)"
        using "1.IH" [of "data ! pos" "data ! pos"] True nz by (simp add: index_def)
      have "walk_labels (drop pos data) = walk_labels (drop (unat (data ! pos)) (drop (Suc pos) data))"
        using nz by (simp add: d walk_labels.simps(2))
      also have "\<dots> = walk_labels (drop (pos + (unat (data ! pos) + 1)) data)"
        by (simp add: add.commute add.left_commute)
      finally show ?thesis
        using True nz ih
        by (subst skip_labels.simps) (simp add: index_def)
    qed
  qed
qed


lemma final_stage:
  "(case drop q data of
      [] \<Rightarrow> []
    | n # table \<Rightarrow> first_unique_name (take (unat n) (complete_entries table))) =
   (if q \<ge> length data then []
    else if unat (data ! q) = 0 \<or> q + 1 + 18 > length data then []
    else first_unique_name (take (unat (data ! q)) (complete_entries (drop (q + 1) data))))"
proof (cases "q \<ge> length data")
  case True
  then show ?thesis by simp
next
  case False
  then have d: "drop q data = data ! q # drop (Suc q) data"
    by (simp add: Cons_nth_drop_Suc)
  have e: "q + 1 + 18 > length data \<Longrightarrow> complete_entries (drop (Suc q) data) = []"
    using complete_entries_short [of "Suc q" data] by simp
  show ?thesis
    using False e by (auto simp: d first_unique_name_def)
qed

lemma header_cases:
  assumes "57 \<le> length data" and "skip_labels data 12 = Inr p1"
    and "skip_labels data (p1 + 5) = Inr p2"
  shows "nbstat_header data =
     Inr (if p1 + 5 \<ge> length data then None
          else let q = (if data ! (p1 + 5) AND 0xC0 = 0xC0 then p1 + 17 else p2 + 11)
               in if q \<ge> length data then None
                  else if unat (data ! q) = 0 \<or> q + 1 + 18 > length data then None
                  else Some (unat (data ! q), q + 1))"
  using assms
  by (simp add: nbstat_header_def index_def Let_def add.commute)


lemma table_result:
  "(case (case drop 10 bs of [] \<Rightarrow> None | n # table \<Rightarrow> Some (n, table)) of
      None \<Rightarrow> []
    | Some (n, table) \<Rightarrow> first_unique_name (take (unat n) (complete_entries table))) =
   (case drop 10 bs of
      [] \<Rightarrow> []
    | n # table \<Rightarrow> first_unique_name (take (unat n) (complete_entries table)))"
  by (simp split: list.splits)

lemma name_cases:
  assumes "57 \<le> length data" and "skip_labels data 12 = Inr p1"
    and "skip_labels data (p1 + 5) = Inr p2"
  shows "nbstat_name data =
     (if p1 + 5 \<ge> length data then []
      else let q = (if data ! (p1 + 5) AND 0xC0 = 0xC0 then p1 + 17 else p2 + 11)
           in if q \<ge> length data then []
              else if unat (data ! q) = 0 \<or> q + 1 + 18 > length data then []
              else first_unique_name (take (unat (data ! q)) (complete_entries (drop (q + 1) data))))"
proof -
  have w1: "walk_labels (drop 12 data) = (if p1 < length data then Some (drop (Suc p1) data) else None)"
    using walk_labels_skip [of 12 data] by (simp add: assms(2))
  have w2: "walk_labels (drop (p1 + 5) data) =
      (if p2 < length data then Some (drop (Suc p2) data) else None)"
    using walk_labels_skip [of "p1 + 5" data] by (simp add: assms(3))
  show ?thesis
  proof (cases "p1 + 5 \<ge> length data")
    case True
    then show ?thesis
      using assms(1) by (simp add: nbstat_name_def name_table_def w1 skip_answer_name_def)
  next
    case False
    then have p1: "p1 < length data" by simp
    have a4: "drop 4 (drop (Suc p1) data) = drop (p1 + 5) data" by (simp add: add.commute)
    have d: "drop (p1 + 5) data = data ! (p1 + 5) # drop (Suc (p1 + 5)) data"
      using False by (intro Cons_nth_drop_Suc [symmetric]) simp
    show ?thesis
    proof (cases "data ! (p1 + 5) AND 0xC0 = 0xC0")
      case ptr: True
      have sk: "skip_answer_name (drop (p1 + 5) data) = Some (drop (p1 + 7) data)"
        using ptr by (simp add: skip_answer_name_def d add.commute)
      have "nbstat_name data =
          (case drop (p1 + 17) data of
             [] \<Rightarrow> []
           | n # table \<Rightarrow> first_unique_name (take (unat n) (complete_entries table)))"
        using assms(1) p1
        by (simp add: nbstat_name_def name_table_def w1 a4 sk table_result del: drop_drop)
           (simp add: add.commute)
      then show ?thesis
        using False ptr by (simp add: final_stage Let_def)
    next
      case lab: False
      have sk: "skip_answer_name (drop (p1 + 5) data) =
          (if p2 < length data then Some (drop (Suc p2) data) else None)"
        using lab w2 by (simp add: skip_answer_name_def d)
      show ?thesis
      proof (cases "p2 < length data")
        case True
        have "nbstat_name data =
          (case drop (p2 + 11) data of
             [] \<Rightarrow> []
           | n # table \<Rightarrow> first_unique_name (take (unat n) (complete_entries table)))"
          using assms(1) p1 True
          by (simp add: nbstat_name_def name_table_def w1 a4 sk table_result del: drop_drop)
             (simp add: add.commute)
        then show ?thesis
          using False lab by (simp add: final_stage Let_def)
      next
        case p2: False
        have "nbstat_name data = []"
          using assms(1) p1 p2
          by (simp add: nbstat_name_def name_table_def w1 a4 sk del: drop_drop)
        then show ?thesis
          using False lab p2 by (simp add: Let_def)
      qed
    qed
  qed
qed

lemma parse_refines: "parseNBSTATResponse data = Inr (nbstat_name data)"
proof (cases "length data < 57")
  case True
  then show ?thesis
    by (simp add: parseNBSTATResponse_def nbstat_header_def nbstat_name_def)
next
  case False
  then have l: "57 \<le> length data" by simp
  obtain p1 where p1: "skip_labels data 12 = Inr p1"
    using skip_labels_total by blast
  obtain p2 where p2: "skip_labels data (p1 + 5) = Inr p2"
    using skip_labels_total by blast
  show ?thesis
    unfolding parseNBSTATResponse_eq header_cases [OF l p1 p2] name_cases [OF l p1 p2]
    by (simp add: Let_def)
qed


text \<open>
  Where the table starts in a response laid out as the specification has it, cut off after
  \<open>k\<close> bytes.
\<close>

lemma drop_take_append:
  assumes "length xs = n"
  shows "drop n (take m (xs @ ys)) = take (m - n) ys"
  unfolding drop_take using assms by simp

lemma label_length_byte:
  assumes "0 < length l" and "length l < 256"
  shows "unat (of_nat (length l) :: byte) = length l" and "(of_nat (length l) :: byte) \<noteq> 0"
proof -
  show u: "unat (of_nat (length l) :: byte) = length l"
    using assms(2) by (simp add: unat_of_nat)
  show "(of_nat (length l) :: byte) \<noteq> 0"
  proof
    assume "(of_nat (length l) :: byte) = 0"
    then have "unat (of_nat (length l) :: byte) = 0" by simp
    with u assms(1) show False by simp
  qed
qed

lemma walk_labels_take:
  assumes "labels_ok ls"
  shows "walk_labels (take m (encode_labels ls @ 0 # R)) =
     (if m \<le> length (encode_labels ls) then None
      else Some (take (m - length (encode_labels ls) - 1) R))"
  using assms
proof (induction ls arbitrary: m)
  case Nil
  show ?case
    by (cases m) (simp_all add: encode_labels_def walk_labels.simps(2))
next
  case (Cons l ls)
  from Cons.prems have l: "0 < length l" "length l < 256" and ok: "labels_ok ls"
    by (simp_all add: labels_ok_def)
  note b = label_length_byte [OF l]
  have enc: "encode_labels (l # ls) = of_nat (length l) # l @ encode_labels ls"
    by (simp add: encode_labels_def)
  show ?case
  proof (cases m)
    case 0
    then show ?thesis by simp
  next
    case (Suc m')
    have "walk_labels (take m (encode_labels (l # ls) @ 0 # R)) =
          walk_labels (drop (length l) (take m' (l @ encode_labels ls @ 0 # R)))"
      by (simp add: enc Suc walk_labels.simps(2) b)
    also have "drop (length l) (take m' (l @ encode_labels ls @ 0 # R)) =
          take (m' - length l) (encode_labels ls @ 0 # R)"
      by (rule drop_take_append) simp
    also have "walk_labels \<dots> =
       (if m' - length l \<le> length (encode_labels ls) then None
        else Some (take (m' - length l - length (encode_labels ls) - 1) R))"
      by (rule Cons.IH [OF ok])
    finally show ?thesis
      by (auto simp: enc Suc)
  qed
qed

lemma skip_answer_take:
  assumes "answer_ok a"
  shows "(case skip_answer_name (take m (encode_answer a @ Z)) of
            None \<Rightarrow> []
          | Some r \<Rightarrow> drop 10 r) =
         take (m - length (encode_answer a) - 10) (drop 10 Z)"
proof (cases a)
  case (Pointer p x)
  with assms have ptr: "p AND 0xC0 = 0xC0" by simp
  show ?thesis
  proof (cases m)
    case 0
    then show ?thesis by (simp add: skip_answer_name_def)
  next
    case (Suc m')
    have "skip_answer_name (take m (encode_answer a @ Z)) = Some (drop 2 (take m (p # x # Z)))"
      using ptr by (simp add: skip_answer_name_def Pointer Suc)
    also have "drop 2 (take m (p # x # Z)) = take (m - 2) Z"
      using drop_take_append [of "[p, x]" 2 m Z] by simp
    finally show ?thesis
      by (simp add: Pointer drop_take)
  qed
next
  case (LabelSequence ls)
  with assms have ok: "labels_ok ls" and h: "hd (encode_labels ls @ [0]) AND 0xC0 \<noteq> 0xC0"
    by simp_all
  have e: "encode_answer a @ Z = encode_labels ls @ 0 # Z"
    by (simp add: LabelSequence)
  show ?thesis
  proof (cases m)
    case 0
    then show ?thesis by (simp add: skip_answer_name_def)
  next
    case (Suc m')
    obtain c cs where c: "encode_labels ls @ 0 # Z = c # cs" and hc: "c = hd (encode_labels ls @ [0])"
      by (cases "encode_labels ls") auto
    have "skip_answer_name (take m (encode_labels ls @ 0 # Z)) =
          walk_labels (take m (encode_labels ls @ 0 # Z))"
      using h by (simp add: skip_answer_name_def c Suc hc [symmetric])
    then show ?thesis
      unfolding e walk_labels_take [OF ok]
      by (auto simp: LabelSequence drop_take)
  qed
qed

lemma name_table_take:
  assumes "well_formed hdr question tc answer rr"
  shows "name_table (take k (response_head hdr question tc answer rr n @ table)) =
     (if k < length (response_head hdr question tc answer rr n) then None
      else Some (n, take (k - length (response_head hdr question tc answer rr n)) table))"
proof -
  from assms have hdr: "length hdr = 12" and q: "labels_ok question" and tc: "length tc = 4"
    and a: "answer_ok answer" and rr: "length rr = 10"
    by (simp_all add: well_formed_def)
  let ?q = "length (encode_labels question)"
  let ?a = "length (encode_answer answer)"
  let ?Z = "rr @ n # table"
  let ?R = "tc @ encode_answer answer @ ?Z"
  have len: "length (response_head hdr question tc answer rr n) = 12 + ?q + 1 + 4 + ?a + 10 + 1"
    by (simp add: response_head_def hdr tc rr)
  have d: "response_head hdr question tc answer rr n @ table =
           hdr @ (encode_labels question @ 0 # ?R)"
    by (simp add: response_head_def)
  have s1: "drop 12 (take k (response_head hdr question tc answer rr n @ table)) =
            take (k - 12) (encode_labels question @ 0 # ?R)"
    unfolding d by (rule drop_take_append) (rule hdr)
  have s2: "walk_labels (take (k - 12) (encode_labels question @ 0 # ?R)) =
       (if k - 12 \<le> ?q then None else Some (take (k - 12 - ?q - 1) ?R))"
    by (rule walk_labels_take [OF q])
  have s3: "drop 4 (take j ?R) = take (j - 4) (encode_answer answer @ ?Z)" for j
    by (rule drop_take_append) (rule tc)
  have s4: "(case skip_answer_name (take j (encode_answer answer @ ?Z)) of
               None \<Rightarrow> None
             | Some r \<Rightarrow> (case drop 10 r of [] \<Rightarrow> None | c # t \<Rightarrow> Some (c, t))) =
            (case take (j - ?a - 10) (n # table) of [] \<Rightarrow> None | c # t \<Rightarrow> Some (c, t))" for j
  proof -
    have "(case skip_answer_name (take j (encode_answer answer @ ?Z)) of
               None \<Rightarrow> None
             | Some r \<Rightarrow> (case drop 10 r of [] \<Rightarrow> None | c # t \<Rightarrow> Some (c, t))) =
          (case (case skip_answer_name (take j (encode_answer answer @ ?Z)) of
                   None \<Rightarrow> []
                 | Some r \<Rightarrow> drop 10 r) of [] \<Rightarrow> None | c # t \<Rightarrow> Some (c, t))"
      by (simp split: option.splits)
    then show ?thesis
      unfolding skip_answer_take [OF a] by (simp add: rr)
  qed
  show ?thesis
  proof (cases "k - 12 \<le> ?q")
    case True
    then have lt: "k < length (response_head hdr question tc answer rr n)"
      unfolding len by arith
    have "name_table (take k (response_head hdr question tc answer rr n @ table)) = None"
      using True by (simp only: name_table_def s1 s2 if_True option.case)
    with lt show ?thesis
      by (simp only: if_True)
  next
    case False
    have "name_table (take k (response_head hdr question tc answer rr n @ table)) =
          (case take (k - 12 - ?q - 1 - 4 - ?a - 10) (n # table) of
             [] \<Rightarrow> None | c # t \<Rightarrow> Some (c, t))"
      using False by (simp only: name_table_def s1 s2 if_False option.case s3 s4)
    also have "\<dots> = (if k < length (response_head hdr question tc answer rr n) then None
      else Some (n, take (k - length (response_head hdr question tc answer rr n)) table))"
    proof (cases "k < length (response_head hdr question tc answer rr n)")
      case True
      then have "k - 12 - ?q - 1 - 4 - ?a - 10 = 0" unfolding len by arith
      with True show ?thesis by simp
    next
      case False
      then have "k - 12 - ?q - 1 - 4 - ?a - 10 =
                 Suc (k - length (response_head hdr question tc answer rr n))"
        unfolding len by arith
      with False show ?thesis by simp
    qed
    finally show ?thesis .
  qed
qed

lemma first_unique_name_Nil: "first_unique_name [] = ''''"
  by (simp add: first_unique_name_def)

lemma complete_entries_lt: "length bs < 18 \<Longrightarrow> complete_entries bs = []"
  by (subst complete_entries.simps) simp

lemma nbstat_name_take:
  assumes "well_formed hdr question tc answer rr"
  shows "nbstat_name (take k (response_head hdr question tc answer rr n @ table)) =
     (if length (take k (response_head hdr question tc answer rr n @ table)) < 57 \<or>
         k < length (response_head hdr question tc answer rr n) then ''''
      else first_unique_name (take (unat n) (complete_entries
             (take (k - length (response_head hdr question tc answer rr n)) table))))"
proof (cases "k < length (response_head hdr question tc answer rr n)")
  case True
  then show ?thesis
    unfolding nbstat_name_def name_table_take [OF assms]
    by (simp only: if_True option.case simp_thms if_cancel)
next
  case False
  then show ?thesis
    unfolding nbstat_name_def name_table_take [OF assms]
    by (simp only: if_False option.case prod.case simp_thms)
qed

text \<open>
  Every list of bytes is a sequence of labels with its terminator and a rest, or a
  sequence of labels cut off; every buffer is a head and a table, or a head cut off.
\<close>

lemma walk_labels_Some:
  "walk_labels bs = Some rest \<Longrightarrow> \<exists>ls. labels_ok ls \<and> bs = encode_labels ls @ 0 # rest"
proof (induction bs rule: walk_labels.induct)
  case 1
  then show ?case by simp
next
  case (2 b bs)
  show ?case
  proof (cases "b = 0")
    case True
    with "2.prems" have "rest = bs" by (simp add: walk_labels.simps(2))
    with True have "labels_ok [] \<and> b # bs = encode_labels [] @ 0 # rest"
      by (simp add: labels_ok_def encode_labels_def)
    then show ?thesis by blast
  next
    case False
    with "2.prems" have w: "walk_labels (drop (unat b) bs) = Some rest"
      by (simp add: walk_labels.simps(2))
    from "2.IH" [OF False w] obtain ls where ls: "labels_ok ls"
      and d: "drop (unat b) bs = encode_labels ls @ 0 # rest" by blast
    let ?l = "take (unat b) bs"
    from d have "drop (unat b) bs \<noteq> []" by simp
    then have len: "length ?l = unat b" by simp
    have pos: "0 < unat b" using False by (simp add: unat_gt_0)
    have lt: "unat b < 256" using unsigned_less [of b, where 'a=nat] by simp
    have bs: "bs = ?l @ drop (unat b) bs" by simp
    have "labels_ok (?l # ls)"
      using ls pos lt len by (auto simp: labels_ok_def)
    moreover have "b # bs = encode_labels (?l # ls) @ 0 # rest"
    proof -
      have "encode_labels (?l # ls) = b # ?l @ encode_labels ls"
        by (simp add: encode_labels_def len del: length_take)
      then show ?thesis using bs d by (metis append_Cons append_assoc)
    qed
    ultimately show ?thesis by blast
  qed
qed

lemma walk_labels_None:
  "walk_labels bs = None \<Longrightarrow>
   \<exists>ls k. labels_ok ls \<and> k \<le> length (encode_labels ls) \<and> bs = take k (encode_labels ls)"
proof (induction bs rule: walk_labels.induct)
  case 1
  have "labels_ok [] \<and> 0 \<le> length (encode_labels []) \<and> [] = take 0 (encode_labels [])"
    by (simp add: labels_ok_def)
  then show ?case by blast
next
  case (2 b bs)
  from "2.prems" have nz: "b \<noteq> 0" and w: "walk_labels (drop (unat b) bs) = None"
    by (simp_all add: walk_labels.simps(2) split: if_splits)
  have pos: "0 < unat b" using nz by (simp add: unat_gt_0)
  have lt: "unat b < 256" using unsigned_less [of b, where 'a=nat] by simp
  show ?case
  proof (cases "unat b \<le> length bs")
    case True
    from "2.IH" [OF nz w] obtain ls k where ls: "labels_ok ls"
      and k: "k \<le> length (encode_labels ls)"
      and d: "drop (unat b) bs = take k (encode_labels ls)" by blast
    let ?l = "take (unat b) bs"
    have len: "length ?l = unat b" using True by simp
    have enc: "encode_labels (?l # ls) = b # ?l @ encode_labels ls"
      by (simp add: encode_labels_def len del: length_take)
    have "labels_ok (?l # ls)"
      using ls pos lt len by (auto simp: labels_ok_def)
    moreover have "Suc (unat b + k) \<le> length (encode_labels (?l # ls))"
      unfolding enc using k len by simp
    moreover have "b # bs = take (Suc (unat b + k)) (encode_labels (?l # ls))"
    proof -
      have "take (unat b + k) (?l @ encode_labels ls) = ?l @ take k (encode_labels ls)"
        using len by simp
      then have "take (Suc (unat b + k)) (encode_labels (?l # ls)) = b # ?l @ drop (unat b) bs"
        unfolding enc d by simp
      then show ?thesis by simp
    qed
    ultimately show ?thesis by blast
  next
    case False
    let ?l = "bs @ replicate (unat b - length bs) 0"
    have len: "length ?l = unat b" using False by simp
    have enc: "encode_labels [?l] = b # ?l"
      by (simp add: encode_labels_def len del: length_append length_replicate)
    have "labels_ok [?l]"
      using pos lt len by (simp add: labels_ok_def del: length_append length_replicate)
    moreover have "Suc (length bs) \<le> length (encode_labels [?l])"
      unfolding enc by simp
    moreover have "b # bs = take (Suc (length bs)) (encode_labels [?l])"
      unfolding enc by simp
    ultimately show ?thesis by blast
  qed
qed

lemma truncatedI:
  assumes "well_formed hdr question tc answer rr"
    and "response_head hdr question tc answer rr n = data @ ext" and "ext \<noteq> []"
  shows "\<exists>hdr question tc answer rr n k. well_formed hdr question tc answer rr \<and>
           k < length (response_head hdr question tc answer rr n) \<and>
           data = take k (response_head hdr question tc answer rr n)"
proof -
  have "length data < length (response_head hdr question tc answer rr n)"
    using assms(2,3) by simp
  moreover have "data = take (length data) (response_head hdr question tc answer rr n)"
    using assms(2) by simp
  ultimately show ?thesis using assms(1) by blast
qed

lemma layout_tail:
  assumes hdr: "length hdr = 12" and q: "labels_ok question" and tc: "length tc = 4"
    and a: "answer_ok answer"
    and data: "data = hdr @ encode_labels question @ [0] @ tc @ encode_answer answer @ r"
  shows "(\<exists>hdr question tc answer rr n table. well_formed hdr question tc answer rr \<and>
            data = response_head hdr question tc answer rr n @ table) \<or>
         (\<exists>hdr question tc answer rr n k. well_formed hdr question tc answer rr \<and>
            k < length (response_head hdr question tc answer rr n) \<and>
            data = take k (response_head hdr question tc answer rr n))"
proof (cases "length r < 10")
  case True
  let ?rr = "r @ replicate (10 - length r) 0"
  have "well_formed hdr question tc answer ?rr"
    using True by (simp add: well_formed_def hdr q tc a)
  moreover have "response_head hdr question tc answer ?rr 0 =
      data @ (replicate (10 - length r) 0 @ [0])"
    by (simp add: response_head_def data)
  ultimately show ?thesis
    by (intro disjI2 truncatedI [where ext = "replicate (10 - length r) 0 @ [0]"]) simp_all
next
  case False
  obtain rr r' where r: "r = rr @ r'" and rr: "length rr = 10"
    using False by (metis append_take_drop_id length_take min.absorb2 not_less)
  have wf: "well_formed hdr question tc answer rr"
    by (simp add: well_formed_def hdr q tc a rr)
  show ?thesis
  proof (cases r')
    case Nil
    have "response_head hdr question tc answer rr 0 = data @ [0]"
      by (simp add: response_head_def data r Nil)
    with wf show ?thesis
      by (intro disjI2 truncatedI [where ext = "[0]"]) simp_all
  next
    case (Cons n table)
    have "data = response_head hdr question tc answer rr n @ table"
      by (simp add: response_head_def data r Cons)
    with wf show ?thesis by blast
  qed
qed

lemma layout_complete:
  "(\<exists>hdr question tc answer rr n table. well_formed hdr question tc answer rr \<and>
      data = response_head hdr question tc answer rr n @ table) \<or>
   (\<exists>hdr question tc answer rr n k. well_formed hdr question tc answer rr \<and>
      k < length (response_head hdr question tc answer rr n) \<and>
      data = take k (response_head hdr question tc answer rr n))"
proof -
  let ?tc0 = "replicate 4 (0 :: byte)"
  let ?a0 = "Pointer 0xC0 0"
  let ?rr0 = "replicate 10 (0 :: byte)"
  have a0: "answer_ok ?a0" by simp
  show ?thesis
  proof (cases "length data < 12")
    case True
    let ?hdr = "data @ replicate (12 - length data) 0"
    let ?ext = "replicate (12 - length data) 0 @ [0] @ ?tc0 @ encode_answer ?a0 @ ?rr0 @ [0]"
    have "well_formed ?hdr [] ?tc0 ?a0 ?rr0"
      using True by (simp add: well_formed_def labels_ok_def)
    moreover have "response_head ?hdr [] ?tc0 ?a0 ?rr0 0 = data @ ?ext"
      by (simp add: response_head_def encode_labels_def)
    ultimately show ?thesis
      by (intro disjI2 truncatedI [where ext = ?ext]) simp_all
  next
    case False
    obtain hdr bs where data: "data = hdr @ bs" and hdr: "length hdr = 12"
      using False by (metis append_take_drop_id length_take min.absorb2 not_less)
    show ?thesis
    proof (cases "walk_labels bs")
      case None
      from walk_labels_None [OF None] obtain question k where q: "labels_ok question"
        and k: "k \<le> length (encode_labels question)"
        and bs: "bs = take k (encode_labels question)" by blast
      let ?ext = "drop k (encode_labels question) @ [0] @ ?tc0 @ encode_answer ?a0 @ ?rr0 @ [0]"
      have "well_formed hdr question ?tc0 ?a0 ?rr0"
        by (simp add: well_formed_def hdr q)
      moreover have "response_head hdr question ?tc0 ?a0 ?rr0 0 = data @ ?ext"
        by (simp add: response_head_def data bs)
      ultimately show ?thesis
        by (intro disjI2 truncatedI [where ext = ?ext]) simp_all
    next
      case (Some r1)
      from walk_labels_Some [OF Some] obtain question where q: "labels_ok question"
        and bs: "bs = encode_labels question @ 0 # r1" by blast
      show ?thesis
      proof (cases "length r1 < 4")
        case True
        let ?tc = "r1 @ replicate (4 - length r1) 0"
        let ?ext = "replicate (4 - length r1) 0 @ encode_answer ?a0 @ ?rr0 @ [0]"
        have "well_formed hdr question ?tc ?a0 ?rr0"
          using True by (simp add: well_formed_def hdr q)
        moreover have "response_head hdr question ?tc ?a0 ?rr0 0 = data @ ?ext"
          by (simp add: response_head_def data bs)
        ultimately show ?thesis
          by (intro disjI2 truncatedI [where ext = ?ext]) simp_all
      next
        case False
        obtain tc r2 where r1: "r1 = tc @ r2" and tc: "length tc = 4"
          using False by (metis append_take_drop_id length_take min.absorb2 not_less)
        have d: "data = hdr @ encode_labels question @ [0] @ tc @ r2"
          by (simp add: data bs r1)
        show ?thesis
        proof (cases r2)
          case Nil
          let ?ext = "encode_answer ?a0 @ ?rr0 @ [0]"
          have "well_formed hdr question tc ?a0 ?rr0"
            by (simp add: well_formed_def hdr q tc)
          moreover have "response_head hdr question tc ?a0 ?rr0 0 = data @ ?ext"
            by (simp add: response_head_def d Nil)
          ultimately show ?thesis
            by (intro disjI2 truncatedI [where ext = ?ext]) simp_all
        next
          case (Cons b r2')
          show ?thesis
          proof (cases "b AND 0xC0 = 0xC0")
            case True
            show ?thesis
            proof (cases r2')
              case Nil
              let ?a = "Pointer b 0"
              let ?ext = "[0] @ ?rr0 @ [0]"
              have "well_formed hdr question tc ?a ?rr0"
                using True by (simp add: well_formed_def hdr q tc)
              moreover have "response_head hdr question tc ?a ?rr0 0 = data @ ?ext"
                by (simp add: response_head_def d Cons Nil)
              ultimately show ?thesis
                by (intro disjI2 truncatedI [where ext = ?ext]) simp_all
            next
              case (Cons x r3)
              have "answer_ok (Pointer b x)" using True by simp
              moreover have "data = hdr @ encode_labels question @ [0] @ tc @
                  encode_answer (Pointer b x) @ r3"
                by (simp add: d \<open>r2 = b # r2'\<close> Cons)
              ultimately show ?thesis
                by (rule layout_tail [OF hdr q tc])
            qed
          next
            case False
            show ?thesis
            proof (cases "walk_labels r2")
              case None
              from walk_labels_None [OF None] obtain ls k where ls: "labels_ok ls"
                and k: "k \<le> length (encode_labels ls)"
                and r2: "r2 = take k (encode_labels ls)" by blast
              from r2 Cons have "hd (encode_labels ls) = b" "encode_labels ls \<noteq> []"
                by (metis hd_take list.sel(1) take_eq_Nil list.distinct(1) gr0I take_0,
                    metis take_Nil list.distinct(1))
              then have h: "hd (encode_labels ls @ [0]) = b" by simp
              let ?a = "LabelSequence ls"
              let ?ext = "drop k (encode_labels ls) @ [0] @ ?rr0 @ [0]"
              have "well_formed hdr question tc ?a ?rr0"
                using False by (simp add: well_formed_def hdr q tc ls h)
              moreover have "response_head hdr question tc ?a ?rr0 0 = data @ ?ext"
                by (simp add: response_head_def d r2)
              ultimately show ?thesis
                by (intro disjI2 truncatedI [where ext = ?ext]) simp_all
            next
              case (Some r3)
              from walk_labels_Some [OF Some] obtain ls where ls: "labels_ok ls"
                and r2: "r2 = encode_labels ls @ 0 # r3" by blast
              from r2 Cons have h: "hd (encode_labels ls @ [0]) = b"
                by (cases "encode_labels ls") auto
              have "answer_ok (LabelSequence ls)"
                using False by (simp add: ls h)
              moreover have "data = hdr @ encode_labels question @ [0] @ tc @
                  encode_answer (LabelSequence ls) @ r3"
                by (simp add: d r2)
              ultimately show ?thesis
                by (rule layout_tail [OF hdr q tc])
            qed
          qed
        qed
      qed
    qed
  qed
qed

text \<open>
  The result of the parser on a response laid out as the specification has it.
\<close>

lemma parse_short: "length data < 57 \<Longrightarrow> parseNBSTATResponse data = Inr ''''"
  by (simp add: parse_refines nbstat_name_def)

lemma parse_take:
  assumes "well_formed hdr question tc answer rr"
  shows "parseNBSTATResponse (take k (response_head hdr question tc answer rr n @ table)) =
     Inr (if length (take k (response_head hdr question tc answer rr n @ table)) < 57 \<or>
             k < length (response_head hdr question tc answer rr n) then ''''
          else first_unique_name (take (unat n) (complete_entries
                 (take (k - length (response_head hdr question tc answer rr n)) table))))"
  unfolding parse_refines nbstat_name_take [OF assms] by (rule refl)

lemma parse_truncated:
  assumes "well_formed hdr question tc answer rr"
    and "k < length (response_head hdr question tc answer rr n) + 18"
  shows "parseNBSTATResponse (take k (response_head hdr question tc answer rr n @ table)) = Inr ''''"
proof (cases "k < length (response_head hdr question tc answer rr n)")
  case True
  then show ?thesis
    unfolding parse_take [OF assms(1)] by (simp only: simp_thms if_True)
next
  case False
  with assms(2) have "length (take (k - length (response_head hdr question tc answer rr n)) table) < 18"
    by simp
  then have "complete_entries (take (k - length (response_head hdr question tc answer rr n)) table) = []"
    by (rule complete_entries_lt)
  then show ?thesis
    unfolding parse_take [OF assms(1)]
    by (simp only: take_Nil first_unique_name_Nil if_cancel)
qed

lemma parse_layout:
  assumes "well_formed hdr question tc answer rr"
    and "57 \<le> length (response_head hdr question tc answer rr n @ table)"
  shows "parseNBSTATResponse (response_head hdr question tc answer rr n @ table) =
     Inr (first_unique_name (take (unat n) (complete_entries table)))"
proof -
  let ?d = "response_head hdr question tc answer rr n @ table"
  have t: "take (length ?d) ?d = ?d" by (rule take_all) (rule le_refl)
  have l: "length ?d - length (response_head hdr question tc answer rr n) = length table"
    by simp
  have n: "\<not> (length ?d < 57 \<or> length ?d < length (response_head hdr question tc answer rr n))"
    using assms(2) by simp
  show ?thesis
    using parse_take [OF assms(1), of "length ?d" n table]
    unfolding t l by (simp only: n if_False take_all [OF le_refl])
qed

lemma parse_zero_names:
  assumes "well_formed hdr question tc answer rr"
  shows "parseNBSTATResponse (response_head hdr question tc answer rr 0 @ table) = Inr ''''"
proof (cases "57 \<le> length (response_head hdr question tc answer rr 0 @ table)")
  case True
  show ?thesis
    unfolding parse_layout [OF assms True] by (simp add: first_unique_name_Nil)
next
  case False
  then show ?thesis by (intro parse_short) simp
qed

lemma complete_entries_concat:
  assumes "list_all (\<lambda>e. length e = 18) es"
  shows "complete_entries (concat es @ rest) = es @ complete_entries rest"
  using assms
proof (induction es)
  case Nil
  show ?case by simp
next
  case (Cons e es)
  then have e: "length e = 18" and es: "list_all (\<lambda>e. length e = 18) es" by simp_all
  have "complete_entries (concat (e # es) @ rest) =
        take 18 (e @ concat es @ rest) # complete_entries (drop 18 (e @ concat es @ rest))"
    by (subst complete_entries.simps) (simp add: e)
  also have "\<dots> = e # complete_entries (concat es @ rest)"
    by (simp add: e)
  finally show ?case by (simp add: Cons.IH [OF es])
qed

lemma parse_entries:
  assumes "well_formed hdr question tc answer rr"
    and "list_all (\<lambda>e. length e = 18) es" and "length es = unat n"
    and "57 \<le> length (response_head hdr question tc answer rr n @ concat es @ rest)"
  shows "parseNBSTATResponse (response_head hdr question tc answer rr n @ concat es @ rest) =
     Inr (first_unique_name es)"
  unfolding parse_layout [OF assms(1,4)] complete_entries_concat [OF assms(2)]
  by (simp add: assms(3) [symmetric])

lemma parse_entries_cut:
  assumes "well_formed hdr question tc answer rr"
    and "list_all (\<lambda>e. length e = 18) es" and "length es < unat n"
    and "length part < 18"
    and "57 \<le> length (response_head hdr question tc answer rr n @ concat es @ part)"
  shows "parseNBSTATResponse (response_head hdr question tc answer rr n @ concat es @ part) =
     Inr (first_unique_name es)"
  unfolding parse_layout [OF assms(1,5)] complete_entries_concat [OF assms(2)]
    complete_entries_lt [OF assms(4)]
  using assms(3) by simp

lemma entry_layout:
  assumes "length nm = 15"
  shows "entry_name (nm @ [sfx, hi, lo]) = TrimRight (string_of_bytes nm) [CHR '' '', CHR 0x00]"
    and "unique_workstation (nm @ [sfx, hi, lo]) =
      (sfx = 0x00 \<and> \<not> bit (push_bit 8 (ucast hi :: 16 word) OR ucast lo) 15 \<and>
       TrimRight (string_of_bytes nm) [CHR '' '', CHR 0x00] \<noteq> '''')"
proof -
  show n: "entry_name (nm @ [sfx, hi, lo]) = TrimRight (string_of_bytes nm) [CHR '' '', CHR 0x00]"
    by (simp add: entry_name_def assms)
  have i: "(nm @ [sfx, hi, lo]) ! 15 = sfx" "(nm @ [sfx, hi, lo]) ! 16 = hi"
    by (simp_all add: nth_append assms)
  have b: "bit (push_bit 8 (ucast hi :: 16 word) OR ucast lo) 15 = bit hi 7"
    using group_flag [of hi lo] unfolding bit15 by simp
  show "unique_workstation (nm @ [sfx, hi, lo]) =
      (sfx = 0x00 \<and> \<not> bit (push_bit 8 (ucast hi :: 16 word) OR ucast lo) 15 \<and>
       TrimRight (string_of_bytes nm) [CHR '' '', CHR 0x00] \<noteq> '''')"
    unfolding unique_workstation_def i b n by (rule refl)
qed

text \<open>
  Claim C8. On every buffer the parser returns what the specification's reading of the
  response returns (\<open>nbstat_name\<close>: skip the 12-byte header, walk the question name to its
  terminator, skip 4 bytes, skip the answer name, a 2-byte pointer or a label sequence, skip
  10 bytes, read the count, then take the first qualifying entry of the table). Stated on
  the bytes themselves: every buffer is either a well-formed head (header, question name,
  type and class, answer name, type, class, TTL and data length, count) followed by a
  table, or a well-formed head cut off before its end. A buffer shorter than 57 bytes
  parses to the empty string. A response cut off anywhere before the end of its first
  18-byte entry parses to the empty string, and so does one whose count is zero. A
  response of at least 57 bytes parses to the first qualifying name among the first
  \<open>num_names\<close> complete 18-byte entries of its table: when the table holds the \<open>num_names\<close>
  entries \<open>es\<close>, whatever follows them, that is the first qualifying name of \<open>es\<close>; when the
  buffer ends inside a later entry, it is the first qualifying name of the entries that
  are complete. The first qualifying name of a list of entries is the trimmed name of the
  first entry that qualifies, and the empty string when none does; an entry of a 15-byte
  name, a suffix byte and two flag bytes qualifies when the suffix is \<open>0x00\<close>, bit 15 of
  the flags is zero and the name trimmed of spaces and NULs is not empty. The canned
  response of the specification, a group record with suffix \<open>0x1E\<close> and then
  \<^verbatim>\<open>"WORKSTATION    "\<close> with suffix \<open>0x00\<close> and flags \<open>0x0400\<close>, parses to \<^verbatim>\<open>WORKSTATION\<close>.
\<close>

theorem parseNBSTATResponse_first_unique_name:
  "parseNBSTATResponse data = Inr (nbstat_name data) \<and>
   ((\<exists>hdr question tc answer rr n table. well_formed hdr question tc answer rr \<and>
       data = response_head hdr question tc answer rr n @ table) \<or>
    (\<exists>hdr question tc answer rr n k. well_formed hdr question tc answer rr \<and>
       k < length (response_head hdr question tc answer rr n) \<and>
       data = take k (response_head hdr question tc answer rr n))) \<and>
   (length short < 57 \<longrightarrow> parseNBSTATResponse short = Inr '''') \<and>
   (well_formed hdr question tc answer rr \<longrightarrow>
      (k < length (response_head hdr question tc answer rr n) + 18 \<longrightarrow>
         parseNBSTATResponse (take k (response_head hdr question tc answer rr n @ table)) =
           Inr '''') \<and>
      parseNBSTATResponse (response_head hdr question tc answer rr 0 @ table) = Inr '''' \<and>
      (57 \<le> length (response_head hdr question tc answer rr n @ table) \<longrightarrow>
         parseNBSTATResponse (response_head hdr question tc answer rr n @ table) =
           Inr (first_unique_name (take (unat n) (complete_entries table)))) \<and>
      (list_all (\<lambda>x. length x = 18) es \<and> length es = unat n \<and>
       57 \<le> length (response_head hdr question tc answer rr n @ concat es @ rest) \<longrightarrow>
         parseNBSTATResponse (response_head hdr question tc answer rr n @ concat es @ rest) =
           Inr (first_unique_name es)) \<and>
      (list_all (\<lambda>x. length x = 18) kept \<and> length kept < unat n \<and> length part < 18 \<and>
       57 \<le> length (response_head hdr question tc answer rr n @ concat kept @ part) \<longrightarrow>
         parseNBSTATResponse (response_head hdr question tc answer rr n @ concat kept @ part) =
           Inr (first_unique_name kept))) \<and>
   (es = xs @ e # ys \<and> list_all (\<lambda>x. \<not> unique_workstation x) xs \<and> unique_workstation e \<longrightarrow>
      first_unique_name es = entry_name e) \<and>
   (list_all (\<lambda>x. \<not> unique_workstation x) others \<longrightarrow> first_unique_name others = '''') \<and>
   (length nm = 15 \<longrightarrow>
      entry_name (nm @ [sfx, hi, lo]) = TrimRight (string_of_bytes nm) [CHR '' '', CHR 0x00] \<and>
      unique_workstation (nm @ [sfx, hi, lo]) =
        (sfx = 0x00 \<and> \<not> bit (push_bit 8 (ucast hi :: 16 word) OR ucast lo) 15 \<and>
         TrimRight (string_of_bytes nm) [CHR '' '', CHR 0x00] \<noteq> '''')) \<and>
   parseNBSTATResponse canned_response = Inr ''WORKSTATION''"
proof -
  have c1: "parseNBSTATResponse data = Inr (nbstat_name data)"
    by (rule parse_refines)
  have c2: "(\<exists>hdr question tc answer rr n table. well_formed hdr question tc answer rr \<and>
       data = response_head hdr question tc answer rr n @ table) \<or>
    (\<exists>hdr question tc answer rr n k. well_formed hdr question tc answer rr \<and>
       k < length (response_head hdr question tc answer rr n) \<and>
       data = take k (response_head hdr question tc answer rr n))"
    by (rule layout_complete)
  have c3: "length short < 57 \<longrightarrow> parseNBSTATResponse short = Inr ''''"
    by (rule impI) (rule parse_short)
  have c4: "well_formed hdr question tc answer rr \<longrightarrow>
      (k < length (response_head hdr question tc answer rr n) + 18 \<longrightarrow>
         parseNBSTATResponse (take k (response_head hdr question tc answer rr n @ table)) =
           Inr '''') \<and>
      parseNBSTATResponse (response_head hdr question tc answer rr 0 @ table) = Inr '''' \<and>
      (57 \<le> length (response_head hdr question tc answer rr n @ table) \<longrightarrow>
         parseNBSTATResponse (response_head hdr question tc answer rr n @ table) =
           Inr (first_unique_name (take (unat n) (complete_entries table)))) \<and>
      (list_all (\<lambda>x. length x = 18) es \<and> length es = unat n \<and>
       57 \<le> length (response_head hdr question tc answer rr n @ concat es @ rest) \<longrightarrow>
         parseNBSTATResponse (response_head hdr question tc answer rr n @ concat es @ rest) =
           Inr (first_unique_name es)) \<and>
      (list_all (\<lambda>x. length x = 18) kept \<and> length kept < unat n \<and> length part < 18 \<and>
       57 \<le> length (response_head hdr question tc answer rr n @ concat kept @ part) \<longrightarrow>
         parseNBSTATResponse (response_head hdr question tc answer rr n @ concat kept @ part) =
           Inr (first_unique_name kept))"
  proof (rule impI)
    assume wf: "well_formed hdr question tc answer rr"
    have a: "k < length (response_head hdr question tc answer rr n) + 18 \<longrightarrow>
         parseNBSTATResponse (take k (response_head hdr question tc answer rr n @ table)) =
           Inr ''''"
      by (rule impI) (rule parse_truncated [OF wf])
    have b: "parseNBSTATResponse (response_head hdr question tc answer rr 0 @ table) = Inr ''''"
      by (rule parse_zero_names [OF wf])
    have c: "57 \<le> length (response_head hdr question tc answer rr n @ table) \<longrightarrow>
         parseNBSTATResponse (response_head hdr question tc answer rr n @ table) =
           Inr (first_unique_name (take (unat n) (complete_entries table)))"
      by (rule impI) (rule parse_layout [OF wf])
    have d: "list_all (\<lambda>x. length x = 18) es \<and> length es = unat n \<and>
       57 \<le> length (response_head hdr question tc answer rr n @ concat es @ rest) \<longrightarrow>
         parseNBSTATResponse (response_head hdr question tc answer rr n @ concat es @ rest) =
           Inr (first_unique_name es)"
      using parse_entries [OF wf] by blast
    have e: "list_all (\<lambda>x. length x = 18) kept \<and> length kept < unat n \<and> length part < 18 \<and>
       57 \<le> length (response_head hdr question tc answer rr n @ concat kept @ part) \<longrightarrow>
         parseNBSTATResponse (response_head hdr question tc answer rr n @ concat kept @ part) =
           Inr (first_unique_name kept)"
      using parse_entries_cut [OF wf] by blast
    show "(k < length (response_head hdr question tc answer rr n) + 18 \<longrightarrow>
         parseNBSTATResponse (take k (response_head hdr question tc answer rr n @ table)) =
           Inr '''') \<and>
      parseNBSTATResponse (response_head hdr question tc answer rr 0 @ table) = Inr '''' \<and>
      (57 \<le> length (response_head hdr question tc answer rr n @ table) \<longrightarrow>
         parseNBSTATResponse (response_head hdr question tc answer rr n @ table) =
           Inr (first_unique_name (take (unat n) (complete_entries table)))) \<and>
      (list_all (\<lambda>x. length x = 18) es \<and> length es = unat n \<and>
       57 \<le> length (response_head hdr question tc answer rr n @ concat es @ rest) \<longrightarrow>
         parseNBSTATResponse (response_head hdr question tc answer rr n @ concat es @ rest) =
           Inr (first_unique_name es)) \<and>
      (list_all (\<lambda>x. length x = 18) kept \<and> length kept < unat n \<and> length part < 18 \<and>
       57 \<le> length (response_head hdr question tc answer rr n @ concat kept @ part) \<longrightarrow>
         parseNBSTATResponse (response_head hdr question tc answer rr n @ concat kept @ part) =
           Inr (first_unique_name kept))"
      by (intro conjI a b c d e)
  qed
  have c5: "es = xs @ e # ys \<and> list_all (\<lambda>x. \<not> unique_workstation x) xs \<and> unique_workstation e \<longrightarrow>
      first_unique_name es = entry_name e"
    using first_unique_name_found by blast
  have c6: "list_all (\<lambda>x. \<not> unique_workstation x) others \<longrightarrow> first_unique_name others = ''''"
    by (rule impI) (rule first_unique_name_none)
  have c7: "length nm = 15 \<longrightarrow>
      entry_name (nm @ [sfx, hi, lo]) = TrimRight (string_of_bytes nm) [CHR '' '', CHR 0x00] \<and>
      unique_workstation (nm @ [sfx, hi, lo]) =
        (sfx = 0x00 \<and> \<not> bit (push_bit 8 (ucast hi :: 16 word) OR ucast lo) 15 \<and>
         TrimRight (string_of_bytes nm) [CHR '' '', CHR 0x00] \<noteq> '''')"
    by (intro impI conjI entry_layout)
  have c8: "parseNBSTATResponse canned_response = Inr ''WORKSTATION''"
    by code_simp
  show ?thesis
    by (intro conjI c1 c2 c3 c4 c5 c6 c7 c8)
qed

text \<open>
  The theorem at the canned response: its head is 63 bytes (a pointer as answer name) and
  its table the two records. Whole, it parses to the name of the second record, the first
  one being a group record; cut to 56 bytes, cut to 80 bytes (inside the first record) or
  with its count set to zero it parses to the empty string; cut to 98 bytes (inside the
  second record) only the group record is complete and the result is empty.
\<close>

theorem parseNBSTATResponse_first_unique_name_witness:
  "well_formed (take 12 canned_response) [take 32 (drop 13 canned_response)]
     (take 4 (drop 46 canned_response)) (Pointer 0xC0 0x0C) (take 10 (drop 52 canned_response)) \<and>
   response_head (take 12 canned_response) [take 32 (drop 13 canned_response)]
     (take 4 (drop 46 canned_response)) (Pointer 0xC0 0x0C) (take 10 (drop 52 canned_response)) 2 @
     concat [take 18 (drop 63 canned_response), take 18 (drop 81 canned_response)] @ [] =
     canned_response \<and>
   nbstat_name canned_response = ''WORKSTATION'' \<and>
   parseNBSTATResponse (take 56 canned_response) = Inr '''' \<and>
   parseNBSTATResponse (take 80 canned_response) = Inr '''' \<and>
   parseNBSTATResponse (take 62 canned_response @ [0x00] @ drop 63 canned_response) = Inr '''' \<and>
   parseNBSTATResponse canned_response =
     Inr (first_unique_name [take 18 (drop 63 canned_response), take 18 (drop 81 canned_response)]) \<and>
   parseNBSTATResponse (take 98 canned_response) =
     Inr (first_unique_name [take 18 (drop 63 canned_response)]) \<and>
   first_unique_name [take 18 (drop 63 canned_response), take 18 (drop 81 canned_response)] =
     entry_name (take 18 (drop 81 canned_response)) \<and>
   first_unique_name [take 18 (drop 63 canned_response)] = '''' \<and>
   entry_name (take 18 (drop 81 canned_response)) = ''WORKSTATION'' \<and>
   unique_workstation (take 18 (drop 81 canned_response)) \<and>
   \<not> unique_workstation (take 18 (drop 63 canned_response))"
proof -
  let ?H = "take 12 canned_response"
  let ?Q = "[take 32 (drop 13 canned_response)]"
  let ?TC = "take 4 (drop 46 canned_response)"
  let ?A = "Pointer 0xC0 0x0C"
  let ?RR = "take 10 (drop 52 canned_response)"
  let ?E1 = "take 18 (drop 63 canned_response)"
  let ?E2 = "take 18 (drop 81 canned_response)"
  note T = parseNBSTATResponse_first_unique_name
    [where data = canned_response and short = "take 56 canned_response"
       and hdr = ?H and question = ?Q and tc = ?TC and answer = ?A and rr = ?RR
       and n = 2 and k = 80 and table = "drop 63 canned_response"
       and es = "[?E1, ?E2]" and rest = "[]" and kept = "[?E1]" and part = "take 17 ?E2"
       and xs = "[?E1]" and e = ?E2 and ys = "[]" and others = "[?E1]"
       and nm = "take 15 ?E2" and sfx = "0x00" and hi = "0x04" and lo = "0x00"]
  have wf: "well_formed ?H ?Q ?TC ?A ?RR"
    by code_simp
  have whole: "response_head ?H ?Q ?TC ?A ?RR 2 @ drop 63 canned_response = canned_response"
    by code_simp
  have entries: "response_head ?H ?Q ?TC ?A ?RR 2 @ concat [?E1, ?E2] @ [] = canned_response"
    by code_simp
  have cut98: "response_head ?H ?Q ?TC ?A ?RR 2 @ concat [?E1] @ take 17 ?E2 =
      take 98 canned_response"
    by code_simp
  have zero: "response_head ?H ?Q ?TC ?A ?RR 0 @ drop 63 canned_response =
      take 62 canned_response @ [0x00] @ drop 63 canned_response"
    by code_simp
  have g: "\<not> unique_workstation ?E1"
    by code_simp
  have w: "unique_workstation ?E2"
    by code_simp
  have nm: "take 15 ?E2 @ [0x00, 0x04, 0x00] = ?E2"
    by code_simp
  note c1 = T [THEN conjunct1]
  note c3 = T [THEN conjunct2, THEN conjunct2, THEN conjunct1]
  note c4 = T [THEN conjunct2, THEN conjunct2, THEN conjunct2, THEN conjunct1, THEN mp, OF wf]
  note c5 = T [THEN conjunct2, THEN conjunct2, THEN conjunct2, THEN conjunct2, THEN conjunct1]
  note c6 = T [THEN conjunct2, THEN conjunct2, THEN conjunct2, THEN conjunct2, THEN conjunct2,
      THEN conjunct1]
  note c7 = T [THEN conjunct2, THEN conjunct2, THEN conjunct2, THEN conjunct2, THEN conjunct2,
      THEN conjunct2, THEN conjunct1]
  note c8 = T [THEN conjunct2, THEN conjunct2, THEN conjunct2, THEN conjunct2, THEN conjunct2,
      THEN conjunct2, THEN conjunct2]
  have r1: "nbstat_name canned_response = ''WORKSTATION''"
    using c1 c8 by simp
  have "length (take 56 canned_response) < 57"
    by simp
  then have r2: "parseNBSTATResponse (take 56 canned_response) = Inr ''''"
    by (rule c3 [THEN mp])
  have "80 < length (response_head ?H ?Q ?TC ?A ?RR 2) + 18"
    by code_simp
  then have "parseNBSTATResponse
      (take 80 (response_head ?H ?Q ?TC ?A ?RR 2 @ drop 63 canned_response)) = Inr ''''"
    by (rule c4 [THEN conjunct1, THEN mp])
  then have r3: "parseNBSTATResponse (take 80 canned_response) = Inr ''''"
    by (simp only: whole)
  have "parseNBSTATResponse (response_head ?H ?Q ?TC ?A ?RR 0 @ drop 63 canned_response) =
      Inr ''''"
    by (rule c4 [THEN conjunct2, THEN conjunct1])
  then have r4: "parseNBSTATResponse (take 62 canned_response @ [0x00] @ drop 63 canned_response) =
      Inr ''''"
    by (simp only: zero)
  have "list_all (\<lambda>x. length x = 18) [?E1, ?E2] \<and> length [?E1, ?E2] = unat (2 :: byte) \<and>
      57 \<le> length (response_head ?H ?Q ?TC ?A ?RR 2 @ concat [?E1, ?E2] @ [])"
    by code_simp
  then have "parseNBSTATResponse (response_head ?H ?Q ?TC ?A ?RR 2 @ concat [?E1, ?E2] @ []) =
      Inr (first_unique_name [?E1, ?E2])"
    by (rule c4 [THEN conjunct2, THEN conjunct2, THEN conjunct2, THEN conjunct1, THEN mp])
  then have r5: "parseNBSTATResponse canned_response = Inr (first_unique_name [?E1, ?E2])"
    by (simp only: entries)
  have "list_all (\<lambda>x. length x = 18) [?E1] \<and> length [?E1] < unat (2 :: byte) \<and>
      length (take 17 ?E2) < 18 \<and>
      57 \<le> length (response_head ?H ?Q ?TC ?A ?RR 2 @ concat [?E1] @ take 17 ?E2)"
    by code_simp
  then have "parseNBSTATResponse (response_head ?H ?Q ?TC ?A ?RR 2 @ concat [?E1] @ take 17 ?E2) =
      Inr (first_unique_name [?E1])"
    by (rule c4 [THEN conjunct2, THEN conjunct2, THEN conjunct2, THEN conjunct2, THEN mp])
  then have r6: "parseNBSTATResponse (take 98 canned_response) = Inr (first_unique_name [?E1])"
    by (simp only: cut98)
  have "[?E1, ?E2] = [?E1] @ ?E2 # [] \<and> list_all (\<lambda>x. \<not> unique_workstation x) [?E1] \<and>
      unique_workstation ?E2"
    using g w by simp
  then have r7: "first_unique_name [?E1, ?E2] = entry_name ?E2"
    by (rule c5 [THEN mp])
  have "list_all (\<lambda>x. \<not> unique_workstation x) [?E1]"
    using g by simp
  then have r8: "first_unique_name [?E1] = ''''"
    by (rule c6 [THEN mp])
  have "length (take 15 ?E2) = 15"
    by code_simp
  then have "entry_name (take 15 ?E2 @ [0x00, 0x04, 0x00]) =
      TrimRight (string_of_bytes (take 15 ?E2)) [CHR '' '', CHR 0x00]"
    by (rule c7 [THEN mp, THEN conjunct1])
  moreover have "TrimRight (string_of_bytes (take 15 ?E2)) [CHR '' '', CHR 0x00] = ''WORKSTATION''"
    by code_simp
  ultimately have r9: "entry_name ?E2 = ''WORKSTATION''"
    unfolding nm by simp
  show ?thesis
    by (intro conjI wf entries r1 r2 r3 r4 r5 r6 r7 r8 r9 w g)
qed

text \<open>
  Claim C10. On every buffer, whatever its length and content, the parser returns a
  string. The two loops are total functions (their termination is proved where they are
  defined: the label walk moves forward by at least one byte, the table loop counts up to
  \<open>numNames\<close>), and every read is a checked \<open>index\<close> or \<open>subslice\<close> whose failure would be
  the result \<open>Inl IndexOutOfRange\<close>; that result never occurs.
\<close>

theorem parseNBSTATResponse_never_panics:
  "\<exists>name. parseNBSTATResponse data = Inr name"
proof -
  obtain r where r: "nbstat_header data = Inr r"
    using nbstat_header_total by blast
  show ?thesis
  proof (cases r)
    case None
    with r show ?thesis by (simp add: parseNBSTATResponse_def)
  next
    case (Some np)
    obtain numNames pos where "np = (numNames, pos)" by (cases np)
    with Some r show ?thesis by (simp add: parseNBSTATResponse_def names_loop_eq)
  qed
qed

text \<open>
  The theorem at three hostile buffers: 57 bytes \<open>0xFF\<close> (label lengths that jump past the
  end), 600 zero bytes (empty labels everywhere) and a header that announces 255 names
  with only one entry present.
\<close>

theorem parseNBSTATResponse_never_panics_witness:
  "parseNBSTATResponse (replicate 57 0xFF) = Inr '''' \<and>
   parseNBSTATResponse (replicate 600 0x00) = Inr '''' \<and>
   parseNBSTATResponse (take 62 canned_response @ [0xFF] @ take 18 (drop 81 canned_response)) =
     Inr ''WORKSTATION''"
proof -
  obtain a where a: "parseNBSTATResponse (replicate 57 0xFF) = Inr a"
    using parseNBSTATResponse_never_panics [of "replicate 57 0xFF"] by blast
  have "parseNBSTATResponse (replicate 57 0xFF) = Inr ''''"
    by code_simp
  moreover have "parseNBSTATResponse (replicate 600 0x00) = Inr ''''"
    by code_simp
  moreover have "parseNBSTATResponse (take 62 canned_response @ [0xFF] @ take 18 (drop 81 canned_response)) =
     Inr ''WORKSTATION''"
    by code_simp
  ultimately show ?thesis using a by simp
qed

section \<open>Banner grabbing: the sanitizer\<close>

lemma contb_not_printable: "contb c \<Longrightarrow> \<not> printable c"
  by (simp add: contb_def printable_def of_char_int_nat)

lemma filter_drop_contb:
  "list_all contb (take n s) \<Longrightarrow> filter printable (drop n s) = filter printable s"
proof (induction n arbitrary: s)
  case 0
  then show ?case by simp
next
  case (Suc n)
  then show ?case by (cases s) (auto simp: contb_not_printable)
qed

lemma char_of_of_char_int: "char_of (of_char c :: int) = c"
  by simp

lemma runes_keep_printable:
  "concat (map (\<lambda>r. if r \<ge> 32 \<and> r < 127 then [char_of r] else []) (runes s)) = filter printable s"
proof (induction s rule: runes.induct)
  case 1
  then show ?case by simp
next
  case (2 c s)
  show ?case
  proof (cases "(of_char c :: int) < 0x80")
    case True
    with 2 show ?thesis
      by (simp add: runes.simps(2) printable_def of_char_int_nat)
  next
    case False
    obtain r w where d: "decoderune (c # s) = (r, w)" by (cases "decoderune (c # s)")
    from decoderune_cases [OF d]
    have r: "\<not> (r \<ge> 32 \<and> r < 127)" and t: "list_all contb (take (w - 1) s)"
      by (auto simp: runeError_def)
    have np: "\<not> printable c" using False by (simp add: printable_def of_char_int_nat)
    have "concat (map (\<lambda>r. if r \<ge> 32 \<and> r < 127 then [char_of r] else []) (runes (drop (w - 1) s)))
          = filter printable (drop (w - 1) s)"
      by (rule "2.IH"(2) [OF False d [symmetric]])
    moreover have "filter printable (drop (w - 1) s) = filter printable s"
      by (rule filter_drop_contb [OF t])
    ultimately show ?thesis
      using False d r np by (simp add: runes.simps(2))
  qed
qed


lemma IndexAny_takeWhile:
  "(if IndexAny s chars \<ge> 0 then take (nat (IndexAny s chars)) s else s) = takeWhile (\<lambda>c. c \<notin> set chars) s"
proof (induction s)
  case Nil
  then show ?case by simp
next
  case (Cons c s)
  then show ?case
    by (auto simp: Let_def nat_add_distrib split: if_splits)
qed

lemma first_line_eq:
  "(if IndexAny raw [CHR 0x0D, CHR 0x0A] \<ge> 0 then take (nat (IndexAny raw [CHR 0x0D, CHR 0x0A])) raw else raw)
     = first_line raw"
  unfolding IndexAny_takeWhile first_line_def by simp

lemma printable_asciiSpace: "printable c \<Longrightarrow> asciiSpace c = (c = CHR '' '')"
  by (auto simp: printable_def asciiSpace_def)

lemma dropWhile_cong_set: "(\<And>x. x \<in> set xs \<Longrightarrow> P x = Q x) \<Longrightarrow> dropWhile P xs = dropWhile Q xs"
  by (induction xs) auto

lemma TrimSpace_printable:
  assumes "list_all printable s"
  shows "TrimSpace s = rev (dropWhile (\<lambda>c. c = CHR '' '') (rev (dropWhile (\<lambda>c. c = CHR '' '') s)))"
proof -
  have a: "dropWhile asciiSpace s = dropWhile (\<lambda>c. c = CHR '' '') s"
    using assms by (intro dropWhile_cong_set) (auto simp: list_all_iff printable_asciiSpace)
  have "set (dropWhile (\<lambda>c. c = CHR '' '') s) \<subseteq> set s"
    by (rule set_dropWhileD [THEN subsetI]) 
  then have b: "dropWhile asciiSpace (rev (dropWhile (\<lambda>c. c = CHR '' '') s))
        = dropWhile (\<lambda>c. c = CHR '' '') (rev (dropWhile (\<lambda>c. c = CHR '' '') s))"
    using assms by (intro dropWhile_cong_set) (auto simp: list_all_iff printable_asciiSpace)
  show ?thesis by (simp add: TrimSpace_def a b)
qed

lemma sanitizeBanner_eq:
  "sanitizeBanner raw = (if truncated raw then take 117 (cleaned raw) @ ''...'' else cleaned raw)"
proof -
  have "TrimSpace (filter printable (first_line raw)) = cleaned raw"
    unfolding cleaned_def by (rule TrimSpace_printable) (simp add: list_all_iff)
  then show ?thesis
    by (simp add: sanitizeBanner_def Let_def first_line_eq runes_keep_printable truncated_def
        del: IndexAny.simps)
qed

lemma cleaned_printable: "list_all printable (cleaned raw)"
proof -
  have "set (cleaned raw) \<subseteq> set (filter printable (first_line raw))"
    unfolding cleaned_def
    by (metis set_rev set_dropWhileD subsetI)
  then show ?thesis by (auto simp: list_all_iff)
qed

lemma first_line_no_crlf: "CHR 0x0D \<notin> set (first_line raw) \<and> CHR 0x0A \<notin> set (first_line raw)"
  unfolding first_line_def by (auto dest: set_takeWhileD)

lemma printable_dots: "list_all printable ''...''"
  by (simp add: printable_def)

lemma printable_not_crlf: "printable c \<Longrightarrow> c \<noteq> CHR 0x0D \<and> c \<noteq> CHR 0x0A"
  by (auto simp: printable_def)

text \<open>
  Claim C3, as the code has it. The sanitizer returns the cleaned line (the prefix before
  the first carriage return or line feed, without the bytes outside \<open>0x20..0x7E\<close>, without
  the spaces around it), or its first 117 bytes and three dots when the cleaned line is
  longer than 120 bytes. The result is at most 120 bytes long, all of them printable
  ASCII, none a carriage return or line feed. A truncated banner ends in three dots and is
  exactly 120 bytes long; a banner that was not truncated is the cleaned line itself, dots
  at its end or not.
\<close>

theorem sanitizeBanner_spec:
  "sanitizeBanner raw = (if truncated raw then take 117 (cleaned raw) @ ''...'' else cleaned raw) \<and>
   length (sanitizeBanner raw) \<le> 120 \<and>
   list_all printable (sanitizeBanner raw) \<and>
   CHR 0x0D \<notin> set (sanitizeBanner raw) \<and>
   CHR 0x0A \<notin> set (sanitizeBanner raw) \<and>
   (truncated raw \<longrightarrow> suffix ''...'' (sanitizeBanner raw) \<and> length (sanitizeBanner raw) = 120) \<and>
   (\<not> truncated raw \<longrightarrow> sanitizeBanner raw = cleaned raw)"
proof -
  have eq: "sanitizeBanner raw = (if truncated raw then take 117 (cleaned raw) @ ''...'' else cleaned raw)"
    by (rule sanitizeBanner_eq)
  have len: "length (sanitizeBanner raw) \<le> 120"
    unfolding eq by (simp add: truncated_def)
  have pr: "list_all printable (sanitizeBanner raw)"
  proof (cases "truncated raw")
    case True
    have "list_all printable (take 117 (cleaned raw))"
      using cleaned_printable [of raw] by (auto simp: list_all_iff dest: in_set_takeD)
    with True show ?thesis
      unfolding eq using printable_dots by simp
  next
    case False
    then show ?thesis unfolding eq using cleaned_printable by simp
  qed
  have crlf: "CHR 0x0D \<notin> set (sanitizeBanner raw)" "CHR 0x0A \<notin> set (sanitizeBanner raw)"
    using pr printable_not_crlf by (auto simp: list_all_iff)
  have tr: "truncated raw \<longrightarrow> suffix ''...'' (sanitizeBanner raw) \<and> length (sanitizeBanner raw) = 120"
    unfolding eq by (auto simp: truncated_def suffix_def)
  have nt: "\<not> truncated raw \<longrightarrow> sanitizeBanner raw = cleaned raw"
    unfolding eq by simp
  from eq len pr crlf tr nt show ?thesis by blast
qed

text \<open>
  The theorem at a banner of 200 letters, which is truncated to 117 letters and three
  dots, and at an SSH greeting followed by a line end, which is not.
\<close>

theorem sanitizeBanner_spec_witness:
  "truncated (replicate 200 CHR ''a'') \<and>
   sanitizeBanner (replicate 200 CHR ''a'') = replicate 117 CHR ''a'' @ ''...'' \<and>
   suffix ''...'' (sanitizeBanner (replicate 200 CHR ''a'')) \<and>
   length (sanitizeBanner (replicate 200 CHR ''a'')) = 120 \<and>
   \<not> truncated (''  SSH-2.0-OpenSSH_8.9p1 Ubuntu '' @ [CHR 0x0D, CHR 0x0A] @ ''junk'') \<and>
   sanitizeBanner (''  SSH-2.0-OpenSSH_8.9p1 Ubuntu '' @ [CHR 0x0D, CHR 0x0A] @ ''junk'') =
     ''SSH-2.0-OpenSSH_8.9p1 Ubuntu''"
proof -
  have t: "truncated (replicate 200 CHR ''a'')"
    by code_simp
  have c: "take 117 (cleaned (replicate 200 CHR ''a'')) = replicate 117 CHR ''a''"
    by code_simp
  have n: "\<not> truncated (''  SSH-2.0-OpenSSH_8.9p1 Ubuntu '' @ [CHR 0x0D, CHR 0x0A] @ ''junk'')"
    by code_simp
  have d: "cleaned (''  SSH-2.0-OpenSSH_8.9p1 Ubuntu '' @ [CHR 0x0D, CHR 0x0A] @ ''junk'') =
     ''SSH-2.0-OpenSSH_8.9p1 Ubuntu''"
    by code_simp
  note A = sanitizeBanner_spec [of "replicate 200 CHR ''a''"]
  note B = sanitizeBanner_spec [of "''  SSH-2.0-OpenSSH_8.9p1 Ubuntu '' @ [CHR 0x0D, CHR 0x0A] @ ''junk''"]
  from A have "sanitizeBanner (replicate 200 CHR ''a'') =
      (if truncated (replicate 200 CHR ''a'')
       then take 117 (cleaned (replicate 200 CHR ''a'')) @ ''...''
       else cleaned (replicate 200 CHR ''a''))"
    by (rule conjunct1)
  with t c have a1: "sanitizeBanner (replicate 200 CHR ''a'') = replicate 117 CHR ''a'' @ ''...''"
    by (simp only: if_True)
  from A t have a2: "suffix ''...'' (sanitizeBanner (replicate 200 CHR ''a'')) \<and>
      length (sanitizeBanner (replicate 200 CHR ''a'')) = 120"
    by blast
  from B n have "sanitizeBanner (''  SSH-2.0-OpenSSH_8.9p1 Ubuntu '' @ [CHR 0x0D, CHR 0x0A] @ ''junk'') =
      cleaned (''  SSH-2.0-OpenSSH_8.9p1 Ubuntu '' @ [CHR 0x0D, CHR 0x0A] @ ''junk'')"
    by blast
  then have b: "sanitizeBanner (''  SSH-2.0-OpenSSH_8.9p1 Ubuntu '' @ [CHR 0x0D, CHR 0x0A] @ ''junk'') =
      ''SSH-2.0-OpenSSH_8.9p1 Ubuntu''"
    using d by (rule trans)
  from t a1 a2 n b show ?thesis by blast
qed

text \<open>
  The claim as the specification states it asks for more: that the result ends in three
  dots only if it was truncated. The banner \<^verbatim>\<open>ok...\<close> is returned as it is, not truncated,
  and ends in three dots.
\<close>

theorem sanitizeBanner_ellipsis_counterexample:
  "\<not> (suffix ''...'' (sanitizeBanner ''ok...'') \<longleftrightarrow> truncated ''ok...'')"
proof -
  have "sanitizeBanner ''ok...'' = ''ok...''" by code_simp
  moreover have "\<not> truncated ''ok...''" by code_simp
  moreover have "suffix ''...'' ''ok...''" by (simp add: suffix_def)
  ultimately show ?thesis by simp
qed

section \<open>The classifiers: precedence\<close>

lemmas type_names =
  TypeRouter_def TypeSwitch_def TypeAP_def TypePrinter_def TypeNAS_def TypeCamera_def
  TypeSmartTV_def TypePhone_def TypeDesktop_def TypeServer_def TypeIoT_def TypeSmartHome_def
  TypeGameConsole_def TypeUnknown_def

lemmas os_names =
  OSWindows_def OSLinux_def OSMacOS_def OSFreeBSD_def OSAndroid_def OSIOS_def OSUnknown_def

text \<open>Lowering an ASCII string never consults the Unicode tables.\<close>

lemma runes_ascii:
  "list_all (\<lambda>c. (of_char c :: int) < 0x80) s \<Longrightarrow> runes s = map of_char s"
  by (induction s) (simp_all add: runes.simps(2))

lemma ToLower_ascii:
  assumes "list_all (\<lambda>c. (of_char c :: int) < 0x80) s"
  shows "ToLower ul s = ToLower (\<lambda>_. '''') s"
proof -
  have "map (lower_rune ul) (map of_char s) = map (lower_rune (\<lambda>_. '''')) (map of_char s)"
    using assms by (induction s) (simp_all add: lower_rune_def)
  then show ?thesis by (simp only: ToLower_def runes_ascii [OF assms])
qed

lemma lower_canon: "ToLower ul ''Canon Inc.'' = ''canon inc.''"
proof -
  have "ToLower (\<lambda>_. '''') ''Canon Inc.'' = ''canon inc.''" by code_simp
  then show ?thesis by (subst ToLower_ascii) simp_all
qed

lemma lower_airplay:
  "ToLower ul (flattenMap [(''mdns.service'', ''_airplay._tcp'')]) = ''mdns.service _airplay._tcp''"
proof -
  have f: "flattenMap [(''mdns.service'', ''_airplay._tcp'')] = ''mdns.service _airplay._tcp''"
    by (simp add: flattenMap_def)
  have "ToLower (\<lambda>_. '''') ''mdns.service _airplay._tcp'' = ''mdns.service _airplay._tcp''"
    by code_simp
  then show ?thesis unfolding f by (subst ToLower_ascii) simp_all
qed

lemma lower_openssh: "ToLower ul ''OpenSSH_8.6 Ubuntu'' = ''openssh_8.6 ubuntu''"
proof -
  have "ToLower (\<lambda>_. '''') ''OpenSSH_8.6 Ubuntu'' = ''openssh_8.6 ubuntu''" by code_simp
  then show ?thesis by (subst ToLower_ascii) simp_all
qed

lemma lower_empty: "ToLower ul '''' = ''''"
  by (simp add: ToLower_def)

lemma mfr_canon: "fingerprintByManufacturer ''canon inc.'' = ''Printer''"
  by code_simp

lemma services_airplay: "fingerprintByServices ''mdns.service _airplay._tcp'' = ''Smart TV''"
  by code_simp

lemma ports_nas: "fingerprintByPorts ul [139, 445, 80] banners srv = ''NAS/Storage''"
  by (simp add: fingerprintByPorts_def type_names)

lemma mfr_empty: "fingerprintByManufacturer '''' = ''''"
  by (simp add: fingerprintByManufacturer_def)

lemma services_empty: "fingerprintByServices '''' = ''''"
  by (simp add: fingerprintByServices_def)

lemma flattenMap_empty: "flattenMap [] = ''''"
  by (simp add: flattenMap_def)

text \<open>
  Claim C5. \<^verbatim>\<open>Fingerprint\<close> returns the first non-empty verdict of the manufacturer
  keywords, the extra-data keywords and the port and banner heuristics, in this order, and
  \<^verbatim>\<open>Unknown\<close> when all three are empty. The manufacturer \<^verbatim>\<open>Canon Inc.\<close> is a printer
  whatever the other arguments are; without a manufacturer the extra data
  \<^verbatim>\<open>{"mdns.service": "_airplay._tcp"}\<close> are a smart TV; without a manufacturer and
  extra data the open ports 139, 445 and 80 are a NAS.
\<close>

theorem Fingerprint_precedence:
  "Fingerprint ul mac manufacturer openPorts banners netbiosName httpServer extraData =
     (let verdict = first_non_empty
            [fingerprintByManufacturer (ToLower ul manufacturer),
             fingerprintByServices (ToLower ul (flattenMap extraData)),
             fingerprintByPorts ul openPorts banners (ToLower ul httpServer)]
      in if verdict = '''' then ''Unknown'' else verdict) \<and>
   fingerprintByManufacturer (ToLower ul ''Canon Inc.'') = ''Printer'' \<and>
   Fingerprint ul mac ''Canon Inc.'' openPorts banners netbiosName httpServer extraData = ''Printer'' \<and>
   fingerprintByServices (ToLower ul (flattenMap [(''mdns.service'', ''_airplay._tcp'')])) = ''Smart TV'' \<and>
   Fingerprint ul mac '''' openPorts banners netbiosName httpServer
     [(''mdns.service'', ''_airplay._tcp'')] = ''Smart TV'' \<and>
   fingerprintByPorts ul [139, 445, 80] banners (ToLower ul httpServer) = ''NAS/Storage'' \<and>
   Fingerprint ul mac '''' [139, 445, 80] banners netbiosName httpServer [] = ''NAS/Storage''"
proof (intro conjI)
  show "Fingerprint ul mac manufacturer openPorts banners netbiosName httpServer extraData =
     (let verdict = first_non_empty
            [fingerprintByManufacturer (ToLower ul manufacturer),
             fingerprintByServices (ToLower ul (flattenMap extraData)),
             fingerprintByPorts ul openPorts banners (ToLower ul httpServer)]
      in if verdict = '''' then ''Unknown'' else verdict)"
    by (simp add: Fingerprint_def Let_def TypeUnknown_def)
  show "fingerprintByManufacturer (ToLower ul ''Canon Inc.'') = ''Printer''"
    by (simp only: lower_canon mfr_canon)
  show "Fingerprint ul mac ''Canon Inc.'' openPorts banners netbiosName httpServer extraData = ''Printer''"
    by (simp add: Fingerprint_def Let_def lower_canon mfr_canon)
  show "fingerprintByServices (ToLower ul (flattenMap [(''mdns.service'', ''_airplay._tcp'')])) = ''Smart TV''"
    by (simp only: lower_airplay services_airplay)
  show "Fingerprint ul mac '''' openPorts banners netbiosName httpServer
     [(''mdns.service'', ''_airplay._tcp'')] = ''Smart TV''"
    by (simp add: Fingerprint_def Let_def lower_empty mfr_empty lower_airplay services_airplay)
  show "fingerprintByPorts ul [139, 445, 80] banners (ToLower ul httpServer) = ''NAS/Storage''"
    by (rule ports_nas)
  show "Fingerprint ul mac '''' [139, 445, 80] banners netbiosName httpServer [] = ''NAS/Storage''"
    by (simp add: Fingerprint_def Let_def lower_empty mfr_empty flattenMap_empty services_empty
        ports_nas)
qed

text \<open>
  The theorem at a device of which nothing is known, which is \<^verbatim>\<open>Unknown\<close>, and at a
  device whose manufacturer, extra data and ports point three different ways: the
  manufacturer wins.
\<close>

theorem Fingerprint_precedence_witness:
  "Fingerprint (\<lambda>_. '''') '''' '''' [] [] '''' '''' [] = ''Unknown'' \<and>
   Fingerprint (\<lambda>_. '''') ''00:1e:8f:00:00:01'' ''Canon Inc.'' [139, 445, 80] [] '''' ''''
     [(''mdns.service'', ''_airplay._tcp'')] = ''Printer''"
proof -
  have u: "first_non_empty
            [fingerprintByManufacturer (ToLower (\<lambda>_. '''') ''''),
             fingerprintByServices (ToLower (\<lambda>_. '''') (flattenMap [])),
             fingerprintByPorts (\<lambda>_. '''') [] [] (ToLower (\<lambda>_. '''') '''')] = ''''"
    by code_simp
  have "Fingerprint (\<lambda>_. '''') '''' '''' [] [] '''' '''' [] = ''Unknown''"
    using Fingerprint_precedence [of "\<lambda>_. ''''" "''''" "''''" "[]" "[]" "''''" "''''" "[]"] u
    by simp
  moreover have "Fingerprint (\<lambda>_. '''') ''00:1e:8f:00:00:01'' ''Canon Inc.'' [139, 445, 80] [] '''' ''''
     [(''mdns.service'', ''_airplay._tcp'')] = ''Printer''"
    using Fingerprint_precedence [of "\<lambda>_. ''''" "''00:1e:8f:00:00:01''" "''Canon Inc.''"
        "[139, 445, 80]" "[]" "''''" "''''" "[(''mdns.service'', ''_airplay._tcp'')]"]
    by blast
  ultimately show ?thesis by blast
qed

lemma ssh_ubuntu:
  assumes "map_of banners 22 = Some ''OpenSSH_8.6 Ubuntu''"
  shows "osFromSSHBanner ul banners = ''Linux''"
proof -
  have "list_ex (Contains ''openssh_8.6 ubuntu'') linuxHints" by code_simp
  then show ?thesis
    by (simp add: osFromSSHBanner_def assms lower_openssh Let_def os_names)
qed

text \<open>
  Claim C4. The verdict of \<^verbatim>\<open>DetectOS\<close> is the first non-empty one of the seven signals in
  the order SSH banner, HTTP Server header, other banners, extra data, NetBIOS name, TTL,
  ports; and as long as one of the first five gives a verdict the network is not touched
  (the TTL is not sampled). A device whose banner on port 22 is \<^verbatim>\<open>OpenSSH_8.6 Ubuntu\<close> is
  Linux, also with port 3389 open, for which the port heuristic alone says Windows. A
  device with a NetBIOS name and no verdict from the four signals before it is Windows.
\<close>

theorem DetectOS_precedence:
  "fst (DetectOS ul nw w ip openPorts banners httpServer netbiosName extraData timeout) =
     first_non_empty
       [osFromSSHBanner ul banners,
        osFromHTTPServer ul httpServer,
        osFromBanners ul banners,
        osFromExtraData ul extraData,
        (if netbiosName \<noteq> '''' then ''Windows'' else ''''),
        fst (osFromTTL nw w ip openPorts timeout),
        osFromPorts openPorts] \<and>
   (first_non_empty
       [osFromSSHBanner ul banners,
        osFromHTTPServer ul httpServer,
        osFromBanners ul banners,
        osFromExtraData ul extraData,
        (if netbiosName \<noteq> '''' then ''Windows'' else '''')] \<noteq> '''' \<longrightarrow>
      snd (DetectOS ul nw w ip openPorts banners httpServer netbiosName extraData timeout) = w) \<and>
   (map_of banners 22 = Some ''OpenSSH_8.6 Ubuntu'' \<and> 3389 \<in> set openPorts \<longrightarrow>
      osFromPorts openPorts = ''Windows'' \<and>
      DetectOS ul nw w ip openPorts banners httpServer netbiosName extraData timeout = (''Linux'', w)) \<and>
   (osFromSSHBanner ul banners = '''' \<and> osFromHTTPServer ul httpServer = '''' \<and>
    osFromBanners ul banners = '''' \<and> osFromExtraData ul extraData = '''' \<and>
    netbiosName \<noteq> '''' \<longrightarrow>
      DetectOS ul nw w ip openPorts banners httpServer netbiosName extraData timeout = (''Windows'', w))"
proof (intro conjI impI)
  show "fst (DetectOS ul nw w ip openPorts banners httpServer netbiosName extraData timeout) =
     first_non_empty
       [osFromSSHBanner ul banners,
        osFromHTTPServer ul httpServer,
        osFromBanners ul banners,
        osFromExtraData ul extraData,
        (if netbiosName \<noteq> '''' then ''Windows'' else ''''),
        fst (osFromTTL nw w ip openPorts timeout),
        osFromPorts openPorts]"
    by (simp add: DetectOS_def os_names split: prod.splits)
next
  assume "first_non_empty
       [osFromSSHBanner ul banners,
        osFromHTTPServer ul httpServer,
        osFromBanners ul banners,
        osFromExtraData ul extraData,
        (if netbiosName \<noteq> '''' then ''Windows'' else '''')] \<noteq> ''''"
  then show "snd (DetectOS ul nw w ip openPorts banners httpServer netbiosName extraData timeout) = w"
    by (simp add: DetectOS_def split: if_splits)
next
  assume a: "map_of banners 22 = Some ''OpenSSH_8.6 Ubuntu'' \<and> 3389 \<in> set openPorts"
  then show "osFromPorts openPorts = ''Windows''"
    by (simp add: osFromPorts_def os_names)
  from a have "osFromSSHBanner ul banners = ''Linux''"
    by (simp add: ssh_ubuntu)
  then show "DetectOS ul nw w ip openPorts banners httpServer netbiosName extraData timeout = (''Linux'', w)"
    by (simp add: DetectOS_def)
next
  assume "osFromSSHBanner ul banners = '''' \<and> osFromHTTPServer ul httpServer = '''' \<and>
    osFromBanners ul banners = '''' \<and> osFromExtraData ul extraData = '''' \<and>
    netbiosName \<noteq> ''''"
  then show "DetectOS ul nw w ip openPorts banners httpServer netbiosName extraData timeout = (''Windows'', w)"
    by (simp add: DetectOS_def os_names)
qed

text \<open>
  The theorem on a network where every TTL read is 128 (which alone would say Windows):
  the device with the Ubuntu SSH banner and port 3389 open is Linux, and the device with
  only the NetBIOS name \<^verbatim>\<open>WORKSTATION\<close> is Windows; neither touches the network, whose
  state counts the probes.
\<close>

theorem DetectOS_precedence_witness:
  "DetectOS (\<lambda>_. '''') \<lparr>ctxDone = \<lambda>_. False, getTTL = \<lambda>w _ _ _. (128, Suc w)\<rparr> (0 :: nat) ''127.0.0.1''
     [22, 3389] [(22, ''OpenSSH_8.6 Ubuntu'')] '''' '''' [] 0 = (''Linux'', 0) \<and>
   DetectOS (\<lambda>_. '''') \<lparr>ctxDone = \<lambda>_. False, getTTL = \<lambda>w _ _ _. (128, Suc w)\<rparr> (0 :: nat) ''127.0.0.1''
     [] [] '''' ''WORKSTATION'' [] 0 = (''Windows'', 0)"
proof -
  let ?nw = "\<lparr>ctxDone = \<lambda>_ :: nat. False, getTTL = \<lambda>w _ _ _. (128, Suc w)\<rparr>"
  have a: "map_of [(22 :: int, ''OpenSSH_8.6 Ubuntu'')] 22 = Some ''OpenSSH_8.6 Ubuntu'' \<and>
           (3389 :: int) \<in> set [22, 3389]"
    by simp
  have b: "osFromSSHBanner (\<lambda>_. '''') [] = '''' \<and> osFromHTTPServer (\<lambda>_. '''') '''' = '''' \<and>
    osFromBanners (\<lambda>_. '''') [] = '''' \<and> osFromExtraData (\<lambda>_. '''') [] = '''' \<and>
    ''WORKSTATION'' \<noteq> ''''"
    by (simp add: osFromSSHBanner_def osFromHTTPServer_def osFromExtraData_def)
  have "DetectOS (\<lambda>_. '''') ?nw 0 ''127.0.0.1'' [22, 3389] [(22, ''OpenSSH_8.6 Ubuntu'')] '''' '''' [] 0
          = (''Linux'', 0)"
    using DetectOS_precedence [of "\<lambda>_. ''''" ?nw 0 "''127.0.0.1''" "[22, 3389]"
        "[(22, ''OpenSSH_8.6 Ubuntu'')]" "''''" "''''" "[]" 0] a
    by blast
  moreover have "DetectOS (\<lambda>_. '''') ?nw 0 ''127.0.0.1'' [] [] '''' ''WORKSTATION'' [] 0
          = (''Windows'', 0)"
    using DetectOS_precedence [of "\<lambda>_. ''''" ?nw 0 "''127.0.0.1''" "[]" "[]" "''''" "''WORKSTATION''"
        "[]" 0] b
    by blast
  ultimately show ?thesis by blast
qed

section \<open>The classifiers and the order of a map\<close>

text \<open>
  The decoder never takes a space into a rune of several bytes, so the runes of two
  strings joined by a space are the runes of the one, the space, and the runes of the
  other; lowering and the search for a keyword without a space follow.
\<close>

lemma not_contb_space: "\<not> contb CHR '' ''"
  by (simp add: contb_def)

lemma decoderune_append_space:
  "s \<noteq> [] \<Longrightarrow> decoderune (s @ CHR '' '' # b) = decoderune s"
  by (auto simp: decoderune_def Let_def not_contb_space split: list.splits)

lemma runes_append_space: "runes (a @ CHR '' '' # b) = runes a @ 0x20 # runes b"
proof (induction a rule: runes.induct)
  case 1
  show ?case by (simp add: runes.simps(2))
next
  case (2 c s)
  show ?case
  proof (cases "(of_char c :: int) < 0x80")
    case True
    with 2 show ?thesis by (simp add: runes.simps(2))
  next
    case False
    obtain r w where d: "decoderune (c # s) = (r, w)" by (cases "decoderune (c # s)")
    have d': "decoderune (c # s @ CHR '' '' # b) = (r, w)"
      using decoderune_append_space [of "c # s" b] d by simp
    from decoderune_cases [OF d] have w: "w - 1 \<le> length s" by auto
    have ih: "runes (drop (w - 1) s @ CHR '' '' # b) = runes (drop (w - 1) s) @ 0x20 # runes b"
      by (rule "2.IH"(2) [OF False d [symmetric]])
    have "runes ((c # s) @ CHR '' '' # b) = r # runes (drop (w - 1) (s @ CHR '' '' # b))"
      using False d' by (simp add: runes.simps(2))
    also have "drop (w - 1) (s @ CHR '' '' # b) = drop (w - 1) s @ CHR '' '' # b"
      using w by simp
    finally show ?thesis
      using False d ih by (simp add: runes.simps(2))
  qed
qed

lemma char_of_32: "char_of (32 :: int) = CHR '' ''"
proof -
  have "char_of (of_char c :: int) = c" for c by simp
  from this [of "CHR '' ''"] show ?thesis by simp
qed

lemma ToLower_append_space:
  "ToLower ul (a @ CHR '' '' # b) = ToLower ul a @ CHR '' '' # ToLower ul b"
  by (simp add: ToLower_def runes_append_space lower_rune_def char_of_32)

lemma ToLower_Join:
  "ToLower ul (Join ps '' '') = Join (map (ToLower ul) ps) '' ''"
  by (induction ps "'' ''" rule: Join.induct) (simp_all add: ToLower_append_space lower_empty)

lemma Contains_sublist: "Contains s t = sublist t s"
  by (induction s) (simp_all add: sublist_Cons_right)

lemma Contains_append_space:
  assumes "kw \<noteq> []" and "CHR '' '' \<notin> set kw"
  shows "Contains (a @ CHR '' '' # b) kw = (Contains a kw \<or> Contains b kw)"
proof -
  have np: "\<not> prefix kw (CHR '' '' # b)"
    using assms by (cases kw) auto
  have "sublist kw (a @ CHR '' '' # b) =
     (sublist kw a \<or> sublist kw (CHR '' '' # b) \<or>
       (\<exists>xs1 xs2. kw = xs1 @ xs2 \<and> suffix xs1 a \<and> prefix xs2 (CHR '' '' # b)))"
    by (rule sublist_append)
  moreover have "sublist kw (CHR '' '' # b) = sublist kw b"
    using np by (simp add: sublist_Cons_right)
  moreover have "(\<exists>xs1 xs2. kw = xs1 @ xs2 \<and> suffix xs1 a \<and> prefix xs2 (CHR '' '' # b)) \<longrightarrow> sublist kw a"
  proof (intro impI, elim exE conjE)
    fix xs1 xs2
    assume k: "kw = xs1 @ xs2" and s: "suffix xs1 a" and p: "prefix xs2 (CHR '' '' # b)"
    have "xs2 = []"
    proof (cases xs2)
      case Nil then show ?thesis .
    next
      case (Cons x xs)
      with p have "x = CHR '' ''" by simp
      with Cons k assms(2) show ?thesis by simp
    qed
    with k s show "sublist kw a" by (simp add: suffix_imp_sublist)
  qed
  ultimately show ?thesis by (auto simp: Contains_sublist)
qed

lemma Contains_Join:
  assumes "kw \<noteq> []" and "CHR '' '' \<notin> set kw"
  shows "Contains (Join ps '' '') kw = list_ex (\<lambda>p. Contains p kw) ps"
proof (induction ps "'' ''" rule: Join.induct)
  case 1
  show ?case using assms(1) by simp
next
  case (2 p)
  show ?case by simp
next
  case (3 p q ps)
  then show ?case
    using Contains_append_space [OF assms] by simp
qed


lemma Contains_lower_Join:
  assumes "space_free kw"
  shows "Contains (ToLower ul (Join ps '' '')) kw = list_ex (\<lambda>p. Contains (ToLower ul p) kw) ps"
  using assms by (simp add: ToLower_Join Contains_Join space_free_def list_ex_iff)

lemma list_ex_mset: "mset xs = mset ys \<Longrightarrow> list_ex P (map f xs) = list_ex P (map f ys)"
  by (auto simp: list_ex_iff dest: mset_eq_setD)

lemma Contains_flattenMap_perm:
  assumes "space_free kw" and "mset m' = mset m"
  shows "Contains (ToLower ul (flattenMap m')) kw = Contains (ToLower ul (flattenMap m)) kw"
proof -
  have l: "length m' = length m" using assms(2) by (rule mset_eq_length)
  show ?thesis
  proof (cases "length m = 0")
    case True
    with l show ?thesis by (simp add: flattenMap_def)
  next
    case False
    with l show ?thesis
      by (simp add: flattenMap_def Contains_lower_Join [OF assms(1)] list_ex_mset [OF assms(2)])
  qed
qed

lemma Contains_flattenBanners_perm:
  assumes "space_free kw" and "mset m' = mset m"
  shows "Contains (ToLower ul (flattenBanners m')) kw = Contains (ToLower ul (flattenBanners m)) kw"
proof -
  have l: "length m' = length m" using assms(2) by (rule mset_eq_length)
  show ?thesis
  proof (cases "length m = 0")
    case True
    with l show ?thesis by (simp add: flattenBanners_def)
  next
    case False
    with l show ?thesis
      by (simp add: flattenBanners_def Contains_lower_Join [OF assms(1)] list_ex_mset [OF assms(2)])
  qed
qed

lemma match_rules_cong:
  assumes "list_all (\<lambda>(keywords, dtype). list_all (\<lambda>kw. Contains s' kw = Contains s kw) keywords) rules"
  shows "match_rules rules s' = match_rules rules s"
  using assms
proof (induction rules)
  case Nil
  show ?case by simp
next
  case (Cons rule rules)
  obtain kws dtype where r: "rule = (kws, dtype)" by (cases rule)
  from Cons.prems have "list_ex (Contains s') kws = list_ex (Contains s) kws"
    by (auto simp: r list_all_iff list_ex_iff)
  with Cons show ?case by (simp add: r)
qed

lemma service_rules_space_free:
  "list_all (\<lambda>(keywords, dtype). list_all space_free keywords) service_rules"
  by (simp add: service_rules_def space_free_def)

lemma fingerprintByServices_perm:
  assumes "mset m' = mset m"
  shows "fingerprintByServices (ToLower ul (flattenMap m')) = fingerprintByServices (ToLower ul (flattenMap m))"
proof -
  have e: "fingerprintByServices s = match_rules service_rules s" for s
    by (simp add: fingerprintByServices_def service_rules_def)
  have "list_all (\<lambda>(keywords, dtype). list_all (\<lambda>kw. Contains (ToLower ul (flattenMap m')) kw =
          Contains (ToLower ul (flattenMap m)) kw) keywords) service_rules"
    using service_rules_space_free Contains_flattenMap_perm [OF _ assms]
    by (auto simp: list_all_iff)
  then have "match_rules service_rules (ToLower ul (flattenMap m')) = match_rules service_rules (ToLower ul (flattenMap m))"
    by (rule match_rules_cong)
  then show ?thesis by (simp only: e)
qed


lemma ssh_space_free: "space_free ''ssh''"
  by (simp add: space_free_def)

lemma fingerprintByPorts_perm:
  assumes "mset banners' = mset banners"
  shows "fingerprintByPorts ul ports banners' srv = fingerprintByPorts ul ports banners srv"
  by (simp only: fingerprintByPorts_def Contains_flattenBanners_perm [OF ssh_space_free assms])

lemma Fingerprint_perm:
  assumes "mset banners' = mset banners" and "mset extraData' = mset extraData"
  shows "Fingerprint ul mac manufacturer openPorts banners' netbiosName httpServer extraData' =
         Fingerprint ul mac manufacturer openPorts banners netbiosName httpServer extraData"
  by (simp only: Fingerprint_def Let_def fingerprintByPorts_perm [OF assms(1)]
      fingerprintByServices_perm [OF assms(2)])

lemma map_of_perm:
  assumes "distinct (map fst m)" and "mset m' = mset m"
  shows "map_of m' = map_of m"
proof -
  have "mset (map fst m') = mset (map fst m)" using assms(2) by simp
  then have "distinct (map fst m')" using assms(1) by (metis mset_eq_imp_distinct_iff)
  moreover have "set m' = set m" using assms(2) by (rule mset_eq_setD)
  ultimately show ?thesis using assms(1) by (simp add: map_of_inject_set)
qed

lemma osFromSSHBanner_perm:
  assumes "distinct (map fst banners)" and "mset banners' = mset banners"
  shows "osFromSSHBanner ul banners' = osFromSSHBanner ul banners"
  by (simp add: osFromSSHBanner_def map_of_perm [OF assms])

lemma DetectOS_ssh:
  "osFromSSHBanner ul banners \<noteq> [] \<Longrightarrow>
   DetectOS ul nw w ip openPorts banners httpServer netbiosName extraData timeout =
     (osFromSSHBanner ul banners, w)"
  by (simp add: DetectOS_def)

lemma DetectOS_http:
  "osFromSSHBanner ul banners = [] \<Longrightarrow> osFromHTTPServer ul httpServer \<noteq> [] \<Longrightarrow>
   DetectOS ul nw w ip openPorts banners httpServer netbiosName extraData timeout =
     (osFromHTTPServer ul httpServer, w)"
  by (simp add: DetectOS_def)

text \<open>
  Claim C9, as the code has it. The device type is a function of the arguments of
  \<^verbatim>\<open>Fingerprint\<close>: two runs on the same manufacturer, ports, HTTP Server header and the same
  banner and extra-data maps return the same type, in whatever order each run iterates the
  two maps. The verdict of \<^verbatim>\<open>DetectOS\<close> is a function of its arguments whenever the SSH
  banner or the HTTP Server header decides: then neither the order of the maps nor the
  network has a say.
\<close>

theorem classifiers_deterministic:
  "(mset banners' = mset banners \<and> mset extraData' = mset extraData \<longrightarrow>
      Fingerprint ul mac manufacturer openPorts banners' netbiosName httpServer extraData' =
      Fingerprint ul mac manufacturer openPorts banners netbiosName httpServer extraData) \<and>
   (distinct (map fst banners) \<and> mset banners' = mset banners \<and>
    mset extraData' = mset extraData \<and>
    (osFromSSHBanner ul banners \<noteq> '''' \<or> osFromHTTPServer ul httpServer \<noteq> '''') \<longrightarrow>
      fst (DetectOS ul nw' w' ip openPorts banners' httpServer netbiosName extraData' timeout) =
      fst (DetectOS ul nw w ip openPorts banners httpServer netbiosName extraData timeout))"
proof (intro conjI impI)
  assume "mset banners' = mset banners \<and> mset extraData' = mset extraData"
  then have "mset banners' = mset banners" and "mset extraData' = mset extraData"
    by simp_all
  then show "Fingerprint ul mac manufacturer openPorts banners' netbiosName httpServer extraData' =
      Fingerprint ul mac manufacturer openPorts banners netbiosName httpServer extraData"
    by (rule Fingerprint_perm)
next
  assume a: "distinct (map fst banners) \<and> mset banners' = mset banners \<and>
    mset extraData' = mset extraData \<and>
    (osFromSSHBanner ul banners \<noteq> '''' \<or> osFromHTTPServer ul httpServer \<noteq> '''')"
  then have "distinct (map fst banners)" and "mset banners' = mset banners"
    by simp_all
  then have s: "osFromSSHBanner ul banners' = osFromSSHBanner ul banners"
    by (rule osFromSSHBanner_perm)
  show "fst (DetectOS ul nw' w' ip openPorts banners' httpServer netbiosName extraData' timeout) =
      fst (DetectOS ul nw w ip openPorts banners httpServer netbiosName extraData timeout)"
  proof (cases "osFromSSHBanner ul banners = []")
    case False
    then show ?thesis
      using s by (simp add: DetectOS_ssh)
  next
    case True
    with a have "osFromHTTPServer ul httpServer \<noteq> []" by simp
    with True s show ?thesis
      by (simp add: DetectOS_http)
  qed
qed



text \<open>
  The theorem at a host with an SSH and an FTP banner and two extra-data entries, the maps
  iterated in one order and in the other, on a network that reads a TTL of 64 and on one
  that reads 128: the type is the same, and so is the system, which the SSH banner decides.
\<close>

theorem classifiers_deterministic_witness:
  "Fingerprint (\<lambda>_. '''') '''' ''Acme'' [21, 22]
     [(21, ''220 Microsoft FTP Service''), (22, ''SSH-2.0-OpenSSH_9.0'')] '''' ''''
     [(''os'', ''x''), (''a'', ''mac'')] =
   Fingerprint (\<lambda>_. '''') '''' ''Acme'' [21, 22]
     [(22, ''SSH-2.0-OpenSSH_9.0''), (21, ''220 Microsoft FTP Service'')] '''' ''''
     [(''a'', ''mac''), (''os'', ''x'')] \<and>
   fst (DetectOS (\<lambda>_. '''') \<lparr>ctxDone = \<lambda>_. False, getTTL = \<lambda>w _ _ _. (128, w)\<rparr> () ''10.0.0.7'' [21, 22]
     [(21, ''220 Microsoft FTP Service''), (22, ''SSH-2.0-OpenSSH_9.0'')] '''' ''''
     [(''os'', ''x''), (''a'', ''mac'')] 5) =
   fst (DetectOS (\<lambda>_. '''') \<lparr>ctxDone = \<lambda>_. False, getTTL = \<lambda>w _ _ _. (64, w)\<rparr> () ''10.0.0.7'' [21, 22]
     [(22, ''SSH-2.0-OpenSSH_9.0''), (21, ''220 Microsoft FTP Service'')] '''' ''''
     [(''a'', ''mac''), (''os'', ''x'')] 5)"
proof -
  have b: "mset [(21 :: int, ''220 Microsoft FTP Service''), (22, ''SSH-2.0-OpenSSH_9.0'')] =
           mset [(22, ''SSH-2.0-OpenSSH_9.0''), (21, ''220 Microsoft FTP Service'')]"
    by simp
  have x: "mset [(''os'', ''x''), (''a'', ''mac'')] = mset [(''a'', ''mac''), (''os'', ''x'')]"
    by simp
  have d: "distinct (map fst [(22 :: int, ''SSH-2.0-OpenSSH_9.0''), (21, ''220 Microsoft FTP Service'')])"
    by simp
  have s: "osFromSSHBanner (\<lambda>_. '''') [(22, ''SSH-2.0-OpenSSH_9.0''), (21, ''220 Microsoft FTP Service'')]
           \<noteq> ''''"
    by code_simp
  show ?thesis
    using classifiers_deterministic [of
        "[(21, ''220 Microsoft FTP Service''), (22, ''SSH-2.0-OpenSSH_9.0'')]"
        "[(22, ''SSH-2.0-OpenSSH_9.0''), (21, ''220 Microsoft FTP Service'')]"
        "[(''os'', ''x''), (''a'', ''mac'')]" "[(''a'', ''mac''), (''os'', ''x'')]"
        "\<lambda>_. ''''" "''''" "''Acme''" "[21, 22]" "''''" "''''"
        "\<lparr>ctxDone = \<lambda>_. False, getTTL = \<lambda>w _ _ _. (128, w)\<rparr>" "()" "''10.0.0.7''" 5
        "\<lparr>ctxDone = \<lambda>_. False, getTTL = \<lambda>w _ _ _. (64, w)\<rparr>" "()"]
      b x d s
    by blast
qed



text \<open>
  The claim as the specification states it does not hold of \<^verbatim>\<open>DetectOS\<close>. With no other
  signal the verdict is the TTL that the sixth step reads from the network: Linux at 64,
  Windows at 128, on the same arguments. And the loop over the banner map returns at the
  first banner that names a system: the same map of an FTP banner of Microsoft and an SMTP
  banner of Ubuntu is Windows when the loop meets port 21 first and Linux when it meets
  port 25 first.
\<close>

theorem DetectOS_deterministic_counterexample:
  "fst (DetectOS (\<lambda>_. '''') \<lparr>ctxDone = \<lambda>_. False, getTTL = \<lambda>w _ _ _. (64, w)\<rparr> () ''10.0.0.7''
          [] [] '''' '''' [] 5) \<noteq>
   fst (DetectOS (\<lambda>_. '''') \<lparr>ctxDone = \<lambda>_. False, getTTL = \<lambda>w _ _ _. (128, w)\<rparr> () ''10.0.0.7''
          [] [] '''' '''' [] 5) \<and>
   mset [(21 :: int, ''220 Microsoft FTP Service''), (25, ''220 ESMTP Postfix (Ubuntu)'')] =
   mset [(25, ''220 ESMTP Postfix (Ubuntu)''), (21, ''220 Microsoft FTP Service'')] \<and>
   fst (DetectOS (\<lambda>_. '''') \<lparr>ctxDone = \<lambda>_. False, getTTL = \<lambda>w _ _ _. (64, w)\<rparr> () ''10.0.0.7'' [21, 25]
          [(21, ''220 Microsoft FTP Service''), (25, ''220 ESMTP Postfix (Ubuntu)'')] '''' '''' [] 5) \<noteq>
   fst (DetectOS (\<lambda>_. '''') \<lparr>ctxDone = \<lambda>_. False, getTTL = \<lambda>w _ _ _. (64, w)\<rparr> () ''10.0.0.7'' [21, 25]
          [(25, ''220 ESMTP Postfix (Ubuntu)''), (21, ''220 Microsoft FTP Service'')] '''' '''' [] 5)"
proof -
  have "fst (DetectOS (\<lambda>_. '''') \<lparr>ctxDone = \<lambda>_. False, getTTL = \<lambda>w _ _ _. (64, w)\<rparr> () ''10.0.0.7''
          [] [] '''' '''' [] 5) = ''Linux''"
    by code_simp
  moreover have "fst (DetectOS (\<lambda>_. '''') \<lparr>ctxDone = \<lambda>_. False, getTTL = \<lambda>w _ _ _. (128, w)\<rparr> () ''10.0.0.7''
          [] [] '''' '''' [] 5) = ''Windows''"
    by code_simp
  moreover have "mset [(21 :: int, ''220 Microsoft FTP Service''), (25, ''220 ESMTP Postfix (Ubuntu)'')] =
   mset [(25, ''220 ESMTP Postfix (Ubuntu)''), (21, ''220 Microsoft FTP Service'')]"
    by simp
  moreover have "fst (DetectOS (\<lambda>_. '''') \<lparr>ctxDone = \<lambda>_. False, getTTL = \<lambda>w _ _ _. (64, w)\<rparr> () ''10.0.0.7'' [21, 25]
          [(21, ''220 Microsoft FTP Service''), (25, ''220 ESMTP Postfix (Ubuntu)'')] '''' '''' [] 5) = ''Windows''"
    by code_simp
  moreover have "fst (DetectOS (\<lambda>_. '''') \<lparr>ctxDone = \<lambda>_. False, getTTL = \<lambda>w _ _ _. (64, w)\<rparr> () ''10.0.0.7'' [21, 25]
          [(25, ''220 ESMTP Postfix (Ubuntu)''), (21, ''220 Microsoft FTP Service'')] '''' '''' [] 5) = ''Linux''"
    by code_simp
  ultimately show ?thesis by simp
qed


section \<open>The prober: which ports are probed how\<close>

lemma http_loop_calls:
  "snd (snd (http_loop nw w ip ports result)) = map CallFetchHTTPInfo (filter isHTTPPort ports)"
  by (induction nw w ip ports result rule: http_loop.induct)
     (auto simp: Let_def split: prod.splits)

lemma banner_loop_calls:
  "snd (snd (banner_loop nw w ip ports result)) =
     map CallGrabBanner (filter (\<lambda>p. \<not> isHTTPPort p) ports)"
  by (induction nw w ip ports result rule: banner_loop.induct)
     (auto simp: Let_def split: prod.splits)

text \<open>The first loop leaves title and server as they are.\<close>

lemma banner_loop_http:
  "HTTPTitle (fst (banner_loop nw w ip ports result)) = HTTPTitle result \<and>
   HTTPServer (fst (banner_loop nw w ip ports result)) = HTTPServer result"
  by (induction nw w ip ports result rule: banner_loop.induct)
     (auto simp: Let_def split: prod.splits)

text \<open>The second loop keeps the first title and the first server that are not empty.\<close>

lemma http_loop_first:
  "HTTPTitle (fst (http_loop nw w ip ports result)) =
     first_non_empty (HTTPTitle result # map fst (http_answers nw w ip ports)) \<and>
   HTTPServer (fst (http_loop nw w ip ports result)) =
     first_non_empty (HTTPServer result # map snd (http_answers nw w ip ports))"
  by (induction nw w ip ports result rule: http_loop.induct)
     (auto simp: Let_def split: prod.splits)

lemma run_to_banners_unfold:
  assumes "reverseDNS nw w ip = (rdns, w1)" and "tcpPing nw w1 ip openPorts = (lat, w2)"
    and "queryNetBIOS nw w2 ip = (nb, w3)"
    and "banner_loop nw w3 ip openPorts
           \<lparr>Latency = lat, ReverseDNS = rdns, Banners = [], HTTPTitle = '''',
              HTTPServer = '''', DeviceType = '''', NetBIOSName = nb\<rparr> = (r, w4, calls)"
  shows "run_to_banners nw w ip openPorts =
           (r, w4, [CallReverseDNS, CallTCPPing, CallQueryNetBIOS] @ calls)"
proof (cases openPorts)
  case Nil
  with assms(4) have "r = \<lparr>Latency = lat, ReverseDNS = rdns, Banners = [], HTTPTitle = '''',
              HTTPServer = '''', DeviceType = '''', NetBIOSName = nb\<rparr>" "w4 = w3" "calls = []"
    by simp_all
  with Nil assms(1,2,3) show ?thesis
    by (simp add: run_to_banners_def)
next
  case (Cons p ps)
  with assms show ?thesis
    by (simp add: run_to_banners_def del: banner_loop.simps)
qed

lemma run_to_banners_calls:
  "snd (snd (run_to_banners nw w ip openPorts)) =
     [CallReverseDNS, CallTCPPing, CallQueryNetBIOS] @
     map CallGrabBanner (filter (\<lambda>p. \<not> isHTTPPort p) openPorts)"
proof -
  obtain rdns w1 where a: "reverseDNS nw w ip = (rdns, w1)" by (cases "reverseDNS nw w ip")
  obtain lat w2 where b: "tcpPing nw w1 ip openPorts = (lat, w2)"
    by (cases "tcpPing nw w1 ip openPorts")
  obtain nb w3 where c: "queryNetBIOS nw w2 ip = (nb, w3)" by (cases "queryNetBIOS nw w2 ip")
  obtain r w4 calls where d: "banner_loop nw w3 ip openPorts
           \<lparr>Latency = lat, ReverseDNS = rdns, Banners = [], HTTPTitle = '''',
              HTTPServer = '''', DeviceType = '''', NetBIOSName = nb\<rparr> = (r, w4, calls)"
    by (metis prod_cases3)
  have "calls = map CallGrabBanner (filter (\<lambda>p. \<not> isHTTPPort p) openPorts)"
    using banner_loop_calls [of nw w3 ip openPorts
        "\<lparr>Latency = lat, ReverseDNS = rdns, Banners = [], HTTPTitle = '''',
              HTTPServer = '''', DeviceType = '''', NetBIOSName = nb\<rparr>"]
    by (simp only: d snd_conv)
  then show ?thesis
    by (simp only: run_to_banners_unfold [OF a b c d] snd_conv)
qed

lemma run_to_banners_http:
  "HTTPTitle (fst (run_to_banners nw w ip openPorts)) = '''' \<and>
   HTTPServer (fst (run_to_banners nw w ip openPorts)) = ''''"
proof -
  obtain rdns w1 where a: "reverseDNS nw w ip = (rdns, w1)" by (cases "reverseDNS nw w ip")
  obtain lat w2 where b: "tcpPing nw w1 ip openPorts = (lat, w2)"
    by (cases "tcpPing nw w1 ip openPorts")
  obtain nb w3 where c: "queryNetBIOS nw w2 ip = (nb, w3)" by (cases "queryNetBIOS nw w2 ip")
  obtain r w4 calls where d: "banner_loop nw w3 ip openPorts
           \<lparr>Latency = lat, ReverseDNS = rdns, Banners = [], HTTPTitle = '''',
              HTTPServer = '''', DeviceType = '''', NetBIOSName = nb\<rparr> = (r, w4, calls)"
    by (metis prod_cases3)
  have "HTTPTitle r = '''' \<and> HTTPServer r = ''''"
    using banner_loop_http [of nw w3 ip openPorts
        "\<lparr>Latency = lat, ReverseDNS = rdns, Banners = [], HTTPTitle = '''',
              HTTPServer = '''', DeviceType = '''', NetBIOSName = nb\<rparr>"]
    by (simp add: d del: banner_loop.simps)
  then show ?thesis
    by (simp only: run_to_banners_unfold [OF a b c d] fst_conv)
qed

lemma RunAll_unfold:
  assumes "run_to_banners nw w ip openPorts = (r4, w4, calls4)"
    and "http_loop nw w4 ip openPorts r4 = (r5, w5, calls5)"
  shows "RunAll ul nw w ip mac manufacturer openPorts extraData =
           (r5\<lparr>DeviceType := Fingerprint ul mac manufacturer openPorts (Banners r5)
                                (NetBIOSName r5) (HTTPServer r5) extraData\<rparr>,
            w5, calls4 @ calls5)"
proof (cases openPorts)
  case Nil
  with assms(2) have "r5 = r4" "w5 = w4" "calls5 = []" by simp_all
  with Nil assms(1) show ?thesis by (simp add: RunAll_def)
next
  case (Cons p ps)
  with assms show ?thesis
    by (simp add: RunAll_def del: http_loop.simps)
qed

lemma RunAll_calls:
  "snd (snd (RunAll ul nw w ip mac manufacturer openPorts extraData)) =
     [CallReverseDNS, CallTCPPing, CallQueryNetBIOS] @
     map CallGrabBanner (filter (\<lambda>p. \<not> isHTTPPort p) openPorts) @
     map CallFetchHTTPInfo (filter isHTTPPort openPorts)"
proof -
  obtain r4 w4 calls4 where r: "run_to_banners nw w ip openPorts = (r4, w4, calls4)"
    by (metis prod_cases3)
  obtain r5 w5 calls5 where h: "http_loop nw w4 ip openPorts r4 = (r5, w5, calls5)"
    by (metis prod_cases3)
  have c4: "calls4 = [CallReverseDNS, CallTCPPing, CallQueryNetBIOS] @
     map CallGrabBanner (filter (\<lambda>p. \<not> isHTTPPort p) openPorts)"
    using run_to_banners_calls [of nw w ip openPorts] by (simp only: r snd_conv)
  have c5: "calls5 = map CallFetchHTTPInfo (filter isHTTPPort openPorts)"
    using http_loop_calls [of nw w4 ip openPorts r4] by (simp only: h snd_conv)
  show ?thesis
    by (simp only: RunAll_unfold [OF r h] snd_conv c4 c5 append_assoc)
qed

lemma RunAll_first:
  "HTTPTitle (fst (RunAll ul nw w ip mac manufacturer openPorts extraData)) =
     first_non_empty
       (map fst (http_answers nw (fst (snd (run_to_banners nw w ip openPorts))) ip openPorts)) \<and>
   HTTPServer (fst (RunAll ul nw w ip mac manufacturer openPorts extraData)) =
     first_non_empty
       (map snd (http_answers nw (fst (snd (run_to_banners nw w ip openPorts))) ip openPorts))"
proof -
  obtain r4 w4 calls4 where r: "run_to_banners nw w ip openPorts = (r4, w4, calls4)"
    by (metis prod_cases3)
  obtain r5 w5 calls5 where h: "http_loop nw w4 ip openPorts r4 = (r5, w5, calls5)"
    by (metis prod_cases3)
  have e: "HTTPTitle r4 = ''''" "HTTPServer r4 = ''''"
    using run_to_banners_http [of nw w ip openPorts] by (simp_all add: r)
  have "HTTPTitle r5 = first_non_empty (map fst (http_answers nw w4 ip openPorts)) \<and>
        HTTPServer r5 = first_non_empty (map snd (http_answers nw w4 ip openPorts))"
    using http_loop_first [of nw w4 ip openPorts r4]
    by (simp add: h e del: http_loop.simps http_answers.simps)
  then show ?thesis
    by (simp add: RunAll_unfold [OF r h] r)
qed

text \<open>
  Claim C6, as the code has it. The HTTP ports are exactly 80, 443, 8080, 8443 and 9090.
  After reverse DNS, TCP ping and NetBIOS, \<^verbatim>\<open>RunAll\<close> grabs a banner on each open port that
  is not an HTTP port and on no other, then fetches the HTTP information on each open port
  that is an HTTP port and on no other, both in the order of the list \<^verbatim>\<open>openPorts\<close>. The
  title and the server of the result are the first non-empty ones among the answers of the
  HTTP ports in that order, the order of the list and not the order of the port numbers.
\<close>

theorem RunAll_http_ports:
  "(isHTTPPort port \<longleftrightarrow> port \<in> set [80, 443, 8080, 8443, 9090]) \<and>
   snd (snd (RunAll ul nw w ip mac manufacturer openPorts extraData)) =
     [CallReverseDNS, CallTCPPing, CallQueryNetBIOS] @
     map CallGrabBanner (filter (\<lambda>p. \<not> isHTTPPort p) openPorts) @
     map CallFetchHTTPInfo (filter isHTTPPort openPorts) \<and>
   HTTPTitle (fst (RunAll ul nw w ip mac manufacturer openPorts extraData)) =
     first_non_empty
       (map fst (http_answers nw (fst (snd (run_to_banners nw w ip openPorts))) ip openPorts)) \<and>
   HTTPServer (fst (RunAll ul nw w ip mac manufacturer openPorts extraData)) =
     first_non_empty
       (map snd (http_answers nw (fst (snd (run_to_banners nw w ip openPorts))) ip openPorts))"
proof (intro conjI)
  show "isHTTPPort port \<longleftrightarrow> port \<in> set [80, 443, 8080, 8443, 9090]"
    by (auto simp: isHTTPPort_def)
  show "snd (snd (RunAll ul nw w ip mac manufacturer openPorts extraData)) =
     [CallReverseDNS, CallTCPPing, CallQueryNetBIOS] @
     map CallGrabBanner (filter (\<lambda>p. \<not> isHTTPPort p) openPorts) @
     map CallFetchHTTPInfo (filter isHTTPPort openPorts)"
    by (rule RunAll_calls)
  show "HTTPTitle (fst (RunAll ul nw w ip mac manufacturer openPorts extraData)) =
     first_non_empty
       (map fst (http_answers nw (fst (snd (run_to_banners nw w ip openPorts))) ip openPorts))"
    by (rule RunAll_first [THEN conjunct1])
  show "HTTPServer (fst (RunAll ul nw w ip mac manufacturer openPorts extraData)) =
     first_non_empty
       (map snd (http_answers nw (fst (snd (run_to_banners nw w ip openPorts))) ip openPorts))"
    by (rule RunAll_first [THEN conjunct2])
qed

text \<open>
  The theorem at the host of the scenarios with the open ports 443, 22 and 80 in this
  order: one banner grab, on port 22, then the two fetches, port 443 before port 80, and
  the title and server of port 443.
\<close>

theorem RunAll_http_ports_witness:
  "snd (snd (RunAll (\<lambda>_. '''') demo_host () ''10.0.0.7'' '''' '''' [443, 22, 80] [])) =
     [CallReverseDNS, CallTCPPing, CallQueryNetBIOS, CallGrabBanner 22,
      CallFetchHTTPInfo 443, CallFetchHTTPInfo 80] \<and>
   HTTPTitle (fst (RunAll (\<lambda>_. '''') demo_host () ''10.0.0.7'' '''' '''' [443, 22, 80] [])) = ''Secure'' \<and>
   HTTPServer (fst (RunAll (\<lambda>_. '''') demo_host () ''10.0.0.7'' '''' '''' [443, 22, 80] [])) = ''nginx''"
proof -
  note T = RunAll_http_ports [of _ "\<lambda>_. ''''" demo_host "()" "''10.0.0.7''" "''''" "''''"
      "[443, 22, 80]" "[]"]
  have f: "filter (\<lambda>p. \<not> isHTTPPort p) [443, 22, 80] = [22]" "filter isHTTPPort [443, 22, 80] = [443, 80]"
    by (simp_all add: isHTTPPort_def)
  have a: "http_answers demo_host (fst (snd (run_to_banners demo_host () ''10.0.0.7'' [443, 22, 80])))
             ''10.0.0.7'' [443, 22, 80] = [(''Secure'', ''nginx''), (''Plain'', ''Apache'')]"
    by (simp add: isHTTPPort_def demo_host_def)
  from T have "snd (snd (RunAll (\<lambda>_. '''') demo_host () ''10.0.0.7'' '''' '''' [443, 22, 80] [])) =
     [CallReverseDNS, CallTCPPing, CallQueryNetBIOS] @
     map CallGrabBanner (filter (\<lambda>p. \<not> isHTTPPort p) [443, 22, 80]) @
     map CallFetchHTTPInfo (filter isHTTPPort [443, 22, 80])"
    by blast
  then have c: "snd (snd (RunAll (\<lambda>_. '''') demo_host () ''10.0.0.7'' '''' '''' [443, 22, 80] [])) =
     [CallReverseDNS, CallTCPPing, CallQueryNetBIOS, CallGrabBanner 22,
      CallFetchHTTPInfo 443, CallFetchHTTPInfo 80]"
    by (simp only: f list.map append.simps)
  from T have "HTTPTitle (fst (RunAll (\<lambda>_. '''') demo_host () ''10.0.0.7'' '''' '''' [443, 22, 80] [])) =
     first_non_empty (map fst (http_answers demo_host
       (fst (snd (run_to_banners demo_host () ''10.0.0.7'' [443, 22, 80]))) ''10.0.0.7'' [443, 22, 80]))"
    by blast
  then have t: "HTTPTitle (fst (RunAll (\<lambda>_. '''') demo_host () ''10.0.0.7'' '''' '''' [443, 22, 80] [])) = ''Secure''"
    unfolding a by simp
  from T have "HTTPServer (fst (RunAll (\<lambda>_. '''') demo_host () ''10.0.0.7'' '''' '''' [443, 22, 80] [])) =
     first_non_empty (map snd (http_answers demo_host
       (fst (snd (run_to_banners demo_host () ''10.0.0.7'' [443, 22, 80]))) ''10.0.0.7'' [443, 22, 80]))"
    by blast
  then have s: "HTTPServer (fst (RunAll (\<lambda>_. '''') demo_host () ''10.0.0.7'' '''' '''' [443, 22, 80] [])) = ''nginx''"
    unfolding a by simp
  from c t s show ?thesis by blast
qed

text \<open>
  The claim as the specification states it has the HTTP ports consulted in ascending
  order. On the same host with the open ports 443 and 80 reported in this order, the
  title is the one of port 443; consulted in ascending order the first title would be the
  one of port 80.
\<close>

theorem RunAll_ascending_counterexample:
  "HTTPTitle (fst (RunAll (\<lambda>_. '''') demo_host () ''10.0.0.7'' '''' '''' [443, 80] [])) = ''Secure'' \<and>
   first_non_empty (map fst (http_answers demo_host () ''10.0.0.7'' (sort [443, 80]))) = ''Plain'' \<and>
   HTTPTitle (fst (RunAll (\<lambda>_. '''') demo_host () ''10.0.0.7'' '''' '''' [443, 80] [])) \<noteq>
     first_non_empty (map fst (http_answers demo_host () ''10.0.0.7'' (sort [443, 80])))"
proof -
  have a: "HTTPTitle (fst (RunAll (\<lambda>_. '''') demo_host () ''10.0.0.7'' '''' '''' [443, 80] [])) = ''Secure''"
    by (simp add: RunAll_first isHTTPPort_def demo_host_def)
  have b: "first_non_empty (map fst (http_answers demo_host () ''10.0.0.7'' (sort [443, 80]))) = ''Plain''"
    by (simp add: isHTTPPort_def demo_host_def)
  from a b show ?thesis by simp
qed

section \<open>Network interfaces: the listing and its VPN flag\<close>

declare leading_ones.simps [simp del]

lemma lan_addr_loop_eq: "lan_addr_loop addrs = list_ex lan_ipv4 addrs"
  by (induction addrs rule: lan_addr_loop.induct) (auto split: prod.splits)

lemma entry_addr_loop_Some:
  assumes "entry_addr_loop fmt iface addrs = Some e"
  shows "list_ex is_ipv4 addrs"
    and "Name e = ifName iface"
    and "IsVPN e = (ifFlags iface AND FlagPointToPoint \<noteq> 0 \<or> ifFlags iface AND FlagBroadcast = 0)"
  using assms
  by (induction fmt iface addrs rule: entry_addr_loop.induct)
     (auto simp: Let_def split: if_splits)

lemma entries_loop_set:
  "e \<in> set (entries_loop fmt ifs) \<longleftrightarrow> (\<exists>iface \<in> set ifs. interface_entry fmt iface = Some e)"
  by (induction ifs) (auto split: option.splits)

lemma interface_entry_Some:
  assumes "interface_entry fmt iface = Some e"
  shows "ifFlags iface AND FlagUp \<noteq> 0" and "ifFlags iface AND FlagLoopback = 0"
    and "\<exists>addrs. ifAddrs iface = Some addrs \<and> entry_addr_loop fmt iface addrs = Some e"
  using assms
  by (auto simp: interface_entry_def split: if_splits option.splits)

text \<open>
  Claim C7, as the code has it. The listing has exactly the entries that the loop body
  makes for the interfaces. An entry stands for an interface that is up, not a loopback and
  has an IPv4 address, and its flag \<^verbatim>\<open>IsVPN\<close> is set exactly when the interface is
  point-to-point or not broadcast-capable. So the flag is never set on a LAN-suitable
  interface, and an interface that is not LAN-suitable and not flagged is one none of
  whose IPv4 networks has a mask of at most 30 bits.
\<close>

theorem ListAllInterfaces_is_vpn:
  "(e \<in> set (ListAllInterfaces fmt (Some ifs)) \<longleftrightarrow>
      (\<exists>iface \<in> set ifs. interface_entry fmt iface = Some e)) \<and>
   (interface_entry fmt iface = Some e \<longrightarrow>
      ifFlags iface AND FlagUp \<noteq> 0 \<and>
      ifFlags iface AND FlagLoopback = 0 \<and>
      (\<exists>addrs. ifAddrs iface = Some addrs \<and> list_ex is_ipv4 addrs) \<and>
      Name e = ifName iface \<and>
      (IsVPN e \<longleftrightarrow>
         ifFlags iface AND FlagPointToPoint \<noteq> 0 \<or> ifFlags iface AND FlagBroadcast = 0) \<and>
      (isLANSuitable iface \<longrightarrow> \<not> IsVPN e) \<and>
      (\<not> isLANSuitable iface \<and> \<not> IsVPN e \<longrightarrow>
         (\<exists>addrs. ifAddrs iface = Some addrs \<and> \<not> list_ex lan_ipv4 addrs)))"
proof (intro conjI impI)
  show "e \<in> set (ListAllInterfaces fmt (Some ifs)) \<longleftrightarrow>
      (\<exists>iface \<in> set ifs. interface_entry fmt iface = Some e)"
    by (simp add: ListAllInterfaces_def entries_loop_set)
next
  assume a: "interface_entry fmt iface = Some e"
  show up: "ifFlags iface AND FlagUp \<noteq> 0" by (rule interface_entry_Some(1) [OF a])
  show lo: "ifFlags iface AND FlagLoopback = 0" by (rule interface_entry_Some(2) [OF a])
  from interface_entry_Some(3) [OF a] obtain addrs
    where ad: "ifAddrs iface = Some addrs" and en: "entry_addr_loop fmt iface addrs = Some e"
    by blast
  show "\<exists>addrs. ifAddrs iface = Some addrs \<and> list_ex is_ipv4 addrs"
    using ad entry_addr_loop_Some(1) [OF en] by blast
  show "Name e = ifName iface" by (rule entry_addr_loop_Some(2) [OF en])
  show vpn: "IsVPN e \<longleftrightarrow>
         ifFlags iface AND FlagPointToPoint \<noteq> 0 \<or> ifFlags iface AND FlagBroadcast = 0"
    by (rule entry_addr_loop_Some(3) [OF en])
  {
    assume "isLANSuitable iface"
    then show "\<not> IsVPN e"
      unfolding vpn by (auto simp: isLANSuitable_def split: if_splits)
  }
  {
    assume "\<not> isLANSuitable iface \<and> \<not> IsVPN e"
    then have "\<not> lan_addr_loop addrs"
      using up lo ad unfolding vpn by (auto simp: isLANSuitable_def split: if_splits)
    then show "\<exists>addrs. ifAddrs iface = Some addrs \<and> \<not> list_ex lan_ipv4 addrs"
      using ad by (simp add: lan_addr_loop_eq)
  }
qed

lemma tunnel_entry:
  "interface_entry plain_strings tunnel_nic =
     Some \<lparr>Name = ''wg0'', IPv4 = ''ip'', Subnet = ''net'', MAC = ''mac'',
           Flags = ''[point-to-point]'', IsVPN = True\<rparr>"
  by code_simp

lemma lan_entry:
  "interface_entry plain_strings lan_nic =
     Some \<lparr>Name = ''eth0'', IPv4 = ''ip'', Subnet = ''net'', MAC = ''mac'',
           Flags = ''[broadcast, multicast]'', IsVPN = False\<rparr>"
  by code_simp

lemma host_route_entry:
  "interface_entry plain_strings host_route_nic =
     Some \<lparr>Name = ''ens4'', IPv4 = ''ip'', Subnet = ''net'', MAC = ''mac'',
           Flags = ''[broadcast, multicast]'', IsVPN = False\<rparr>"
  by code_simp

text \<open>
  The theorem at a WireGuard tunnel (point-to-point, 10.8.0.2/24), which is listed,
  flagged and not LAN-suitable, and at an Ethernet interface with 192.168.1.37/24, which is
  listed, LAN-suitable and not flagged.
\<close>

theorem ListAllInterfaces_is_vpn_witness:
  "\<lparr>Name = ''wg0'', IPv4 = ''ip'', Subnet = ''net'', MAC = ''mac'',
     Flags = ''[point-to-point]'', IsVPN = True\<rparr>
     \<in> set (ListAllInterfaces plain_strings (Some [lan_nic, tunnel_nic])) \<and>
   \<not> isLANSuitable tunnel_nic \<and>
   \<lparr>Name = ''eth0'', IPv4 = ''ip'', Subnet = ''net'', MAC = ''mac'',
     Flags = ''[broadcast, multicast]'', IsVPN = False\<rparr>
     \<in> set (ListAllInterfaces plain_strings (Some [lan_nic, tunnel_nic])) \<and>
   isLANSuitable lan_nic"
proof -
  let ?t = "\<lparr>Name = ''wg0'', IPv4 = ''ip'', Subnet = ''net'', MAC = ''mac'',
     Flags = ''[point-to-point]'', IsVPN = True\<rparr>"
  let ?l = "\<lparr>Name = ''eth0'', IPv4 = ''ip'', Subnet = ''net'', MAC = ''mac'',
     Flags = ''[broadcast, multicast]'', IsVPN = False\<rparr>"
  note T = ListAllInterfaces_is_vpn [of ?t plain_strings "[lan_nic, tunnel_nic]" tunnel_nic]
  note L = ListAllInterfaces_is_vpn [of ?l plain_strings "[lan_nic, tunnel_nic]" lan_nic]
  have t_in: "?t \<in> set (ListAllInterfaces plain_strings (Some [lan_nic, tunnel_nic]))"
    using T tunnel_entry by auto
  have l_in: "?l \<in> set (ListAllInterfaces plain_strings (Some [lan_nic, tunnel_nic]))"
    using L lan_entry by auto
  have t_not: "\<not> isLANSuitable tunnel_nic"
    using T tunnel_entry by auto
  have l_lan: "isLANSuitable lan_nic"
    by code_simp
  from t_in t_not l_in l_lan show ?thesis by blast
qed

text \<open>
  The claim as the specification states it flags every listed interface that is not
  LAN-suitable. An interface that is up, broadcast-capable and not point-to-point, with
  the one address 10.128.0.2/32, is not LAN-suitable (its mask is longer than /30) and is
  listed with the flag not set.
\<close>

theorem ListAllInterfaces_is_vpn_counterexample:
  "ifFlags host_route_nic AND FlagUp \<noteq> 0 \<and>
   ifFlags host_route_nic AND FlagLoopback = 0 \<and>
   \<not> isLANSuitable host_route_nic \<and>
   ListAllInterfaces plain_strings (Some [host_route_nic]) =
     [\<lparr>Name = ''ens4'', IPv4 = ''ip'', Subnet = ''net'', MAC = ''mac'',
       Flags = ''[broadcast, multicast]'', IsVPN = False\<rparr>]"
proof -
  have "ifFlags host_route_nic AND FlagUp \<noteq> 0" by code_simp
  moreover have "ifFlags host_route_nic AND FlagLoopback = 0" by code_simp
  moreover have "\<not> isLANSuitable host_route_nic" by code_simp
  moreover have "ListAllInterfaces plain_strings (Some [host_route_nic]) =
     [\<lparr>Name = ''ens4'', IPv4 = ''ip'', Subnet = ''net'', MAC = ''mac'',
       Flags = ''[broadcast, multicast]'', IsVPN = False\<rparr>]"
    by (simp add: ListAllInterfaces_def host_route_entry)
  ultimately show ?thesis by blast
qed

end
